theory Spec2Isabelle
  imports Complex_Main "HOL-Library.Multiset"
begin

section \<open>Platform assignment of the train scheduler\<close>

text \<open>
  A shallow embedding of \<^verbatim>\<open>src/components/train-scheduler.tsx\<close>: the types
  \<^verbatim>\<open>Train\<close>, \<^verbatim>\<open>AssignedTrain\<close>, \<^verbatim>\<open>Platform\<close> and \<^verbatim>\<open>ScoringWeights\<close>,
  the function \<^verbatim>\<open>assignPlatformsScoreBased\<close> and the derived tables
  \<^verbatim>\<open>platformMetrics\<close>, \<^verbatim>\<open>delayComparisonData\<close> and the rows of the Scheduling Metrics table.

  The engine is embedded three times. The first embedding, a function from the list of
  vehicles to the list of platforms, takes a JavaScript \<^verbatim>\<open>number\<close> to be a \<^typ>\<open>real\<close> and
  the arithmetic to be exact: it leaves out rounding, overflow, the infinities and NaN, and
  says nothing about runs in which these occur (\<^verbatim>\<open>Number.POSITIVE_INFINITY\<close>, the only
  non-finite value the source itself writes, is the value \<open>None\<close> of a \<^typ>\<open>real option\<close>). The
  second one is the same function as a transformer of a heap of objects, for the question of
  what it writes. The third one, whose names end in \<open>D\<close>, takes a \<^verbatim>\<open>number\<close> to be what it is
  at run time, a double-precision floating-point value with rounded operations; the
  properties that depend on the values computed (ties between scores, the dwell duration, the
  two delay reports) are stated on it.
\<close>

subsection \<open>Data model\<close>

datatype status = OnTime | Delayed

record Train =
  id_train :: string
  name :: string
  arrival :: real
  departure :: real
  delay :: real
  status :: status

record AssignedTrain = Train +
  effectiveArrival :: real
  effectiveDeparture :: real

record Platform =
  id_platform :: nat
  trains :: "AssignedTrain list"
  nextFreeAt :: real

record ScoringWeights =
  idleGap :: real
  load :: real
  delayedSpread :: real

definition DEFAULT_WEIGHTS :: ScoringWeights where
  "DEFAULT_WEIGHTS = \<lparr>idleGap = 1.0, load = 0.3, delayedSpread = 0.5\<rparr>"

subsection \<open>Effective interval\<close>

text \<open>
  The body of the \<^verbatim>\<open>trains.map\<close> call: a fresh object with the fields of \<open>t\<close> and the two
  effective times.
\<close>

definition withEffective1 :: "Train \<Rightarrow> AssignedTrain" where
  "withEffective1 t =
     Train.extend t \<lparr>effectiveArrival = arrival t + delay t,
                     effectiveDeparture = departure t + delay t\<rparr>"

subsection \<open>Sorting\<close>

text \<open>
  \<^verbatim>\<open>Array.prototype.sort\<close> with a comparator: the language standard requires the sort to
  be stable, and for a consistent comparator the result is the one of insertion sort, where an
  element goes in front of the first element it does not compare greater than. Elements are
  inserted from the right end of the input, so that an element ends up in front of the later
  ones it ties with.
\<close>

fun insert_cmp :: "('a \<Rightarrow> 'a \<Rightarrow> real) \<Rightarrow> 'a \<Rightarrow> 'a list \<Rightarrow> 'a list" where
  "insert_cmp cmp x [] = [x]"
| "insert_cmp cmp x (y # ys) =
     (if cmp x y \<le> 0 then x # y # ys else y # insert_cmp cmp x ys)"

definition array_sort :: "('a \<Rightarrow> 'a \<Rightarrow> real) \<Rightarrow> 'a list \<Rightarrow> 'a list" where
  "array_sort cmp xs = foldr (insert_cmp cmp) xs []"

definition byEffectiveArrival :: "AssignedTrain \<Rightarrow> AssignedTrain \<Rightarrow> real" where
  "byEffectiveArrival a b = effectiveArrival a - effectiveArrival b"

text \<open>The order in which the outer loop of the engine visits the vehicles.\<close>

definition withEffective :: "Train list \<Rightarrow> AssignedTrain list" where
  "withEffective ts = array_sort byEffectiveArrival (map withEffective1 ts)"

subsection \<open>Scoring and the scan over the platforms\<close>

definition delayedCountOf :: "AssignedTrain list \<Rightarrow> nat" where
  "delayedCountOf ts = foldl (\<lambda>acc t. acc + (if status t = Delayed then 1 else 0)) 0 ts"

definition score :: "ScoringWeights \<Rightarrow> Platform \<Rightarrow> AssignedTrain \<Rightarrow> real" where
  "score weights pl train =
     (let gap = max 0 (effectiveArrival train - nextFreeAt pl);
          loadN = length (trains pl);
          delayedCount = delayedCountOf (trains pl)
      in idleGap weights * gap + load weights * real loadN
           + delayedSpread weights * real delayedCount)"

text \<open>\<open>score < bestScore\<close>, where \<open>None\<close> is positive infinity.\<close>

definition less_best :: "real \<Rightarrow> real option \<Rightarrow> bool" where
  "less_best s best = (case best of None \<Rightarrow> True | Some b \<Rightarrow> s < b)"

text \<open>
  One iteration of the inner loop on the pair \<open>(bestIdx, bestScore)\<close>; the index \<open>i\<close> is
  below \<open>length platforms\<close> in every call.
\<close>

definition scan_step ::
  "ScoringWeights \<Rightarrow> Platform list \<Rightarrow> AssignedTrain \<Rightarrow> int \<times> real option \<Rightarrow> nat
     \<Rightarrow> int \<times> real option" where
  "scan_step weights platforms train best i =
     (let pl = platforms ! i in
      if nextFreeAt pl \<le> effectiveArrival train then
        (let sc = score weights pl train in
         if less_best sc (snd best) then (int i, Some sc) else best)
      else best)"

definition scan ::
  "ScoringWeights \<Rightarrow> Platform list \<Rightarrow> AssignedTrain \<Rightarrow> int \<times> real option" where
  "scan weights platforms train =
     foldl (scan_step weights platforms train) (- 1, None) [0..<length platforms]"

subsection \<open>The engine\<close>

text \<open>
  The body of the outer loop: the scan, then either the push onto the chosen platform or a
  new platform at the end of the list.
\<close>

definition place :: "ScoringWeights \<Rightarrow> Platform list \<Rightarrow> AssignedTrain \<Rightarrow> Platform list" where
  "place weights platforms train =
     (let bestIdx = fst (scan weights platforms train) in
      if bestIdx \<ge> 0 then
        (let pl = platforms ! nat bestIdx in
         platforms[nat bestIdx :=
           pl\<lparr>trains := trains pl @ [train], nextFreeAt := effectiveDeparture train\<rparr>])
      else
        platforms @ [\<lparr>id_platform = length platforms + 1, trains = [train],
                      nextFreeAt = effectiveDeparture train\<rparr>])"

definition assignPlatformsScoreBased :: "Train list \<Rightarrow> ScoringWeights \<Rightarrow> Platform list" where
  "assignPlatformsScoreBased ts weights = foldl (place weights) [] (withEffective ts)"

text \<open>The platform list after the outer loop has placed the first \<open>k\<close> vehicles.\<close>

definition after_placing :: "Train list \<Rightarrow> ScoringWeights \<Rightarrow> nat \<Rightarrow> Platform list" where
  "after_placing ts weights k = foldl (place weights) [] (take k (withEffective ts))"

subsection \<open>The engine on a heap of objects\<close>

text \<open>
  The same function with the objects it reads, creates and updates made explicit. A heap is
  the list of all objects; a reference is a position in it; a new object goes to the end.
  The caller's array and its \<^verbatim>\<open>Train\<close> objects are on the heap; the object spread in
  \<^verbatim>\<open>trains.map\<close> creates an \<^verbatim>\<open>AssignedTrain\<close> object, \<^verbatim>\<open>sort\<close> writes the array it is
  called on, \<^verbatim>\<open>push\<close> writes the array it is called on, and the assignment to
  \<^verbatim>\<open>pl.nextFreeAt\<close> writes the platform object. A read of a missing object or of an
  object of another kind is the result \<open>None\<close>.
\<close>

type_synonym ref = nat

datatype obj =
  TrainObj Train
| AssignedObj AssignedTrain
| ArrayObj "ref list"
| PlatformObj nat ref real

type_synonym heap = "obj list"

text \<open>Creation of an object, and the reads.\<close>

definition alloc :: "heap \<Rightarrow> obj \<Rightarrow> heap \<times> ref" where
  "alloc h ob = (h @ [ob], length h)"

definition getObj :: "heap \<Rightarrow> ref \<Rightarrow> obj option" where
  "getObj h r = (if r < length h then Some (h ! r) else None)"

definition getTrain :: "heap \<Rightarrow> ref \<Rightarrow> Train option" where
  "getTrain h r = (case getObj h r of Some (TrainObj t) \<Rightarrow> Some t | _ \<Rightarrow> None)"

definition getAssigned :: "heap \<Rightarrow> ref \<Rightarrow> AssignedTrain option" where
  "getAssigned h r = (case getObj h r of Some (AssignedObj t) \<Rightarrow> Some t | _ \<Rightarrow> None)"

definition getArray :: "heap \<Rightarrow> ref \<Rightarrow> ref list option" where
  "getArray h r = (case getObj h r of Some (ArrayObj xs) \<Rightarrow> Some xs | _ \<Rightarrow> None)"

text \<open>\<^verbatim>\<open>trains.map\<close>: one new object per element of the caller's array.\<close>

fun mapWithEffective :: "heap \<Rightarrow> ref list \<Rightarrow> (heap \<times> ref list) option" where
  "mapWithEffective h [] = Some (h, [])"
| "mapWithEffective h (r # rs) =
     (case getTrain h r of
        None \<Rightarrow> None
      | Some t \<Rightarrow>
          (case alloc h (AssignedObj (withEffective1 t)) of
             (h1, x) \<Rightarrow>
               (case mapWithEffective h1 rs of
                  None \<Rightarrow> None
                | Some (h2, xs) \<Rightarrow> Some (h2, x # xs))))"

text \<open>
  \<^verbatim>\<open>withEffective.sort\<close>: the array at \<open>a\<close> is overwritten with its references in sorted
  order; the comparator reads the objects behind the references.
\<close>

definition sortHeap :: "heap \<Rightarrow> ref \<Rightarrow> heap option" where
  "sortHeap h a =
     (case getArray h a of
        None \<Rightarrow> None
      | Some xs \<Rightarrow>
          (case those (map (getAssigned h) xs) of
             None \<Rightarrow> None
           | Some ts \<Rightarrow>
               Some (h[a := ArrayObj (map fst
                 (array_sort (\<lambda>p q. byEffectiveArrival (snd p) (snd q)) (zip xs ts)))])))"

text \<open>The platforms behind the array at \<open>p\<close>, as the inner loop reads them.\<close>

definition readPlatform :: "heap \<Rightarrow> ref \<Rightarrow> Platform option" where
  "readPlatform h pr =
     (case getObj h pr of
        Some (PlatformObj i tr nf) \<Rightarrow>
          (case getArray h tr of
             None \<Rightarrow> None
           | Some xs \<Rightarrow>
               (case those (map (getAssigned h) xs) of
                  None \<Rightarrow> None
                | Some ts \<Rightarrow> Some \<lparr>id_platform = i, trains = ts, nextFreeAt = nf\<rparr>))
      | _ \<Rightarrow> None)"

definition readPlatforms :: "heap \<Rightarrow> ref \<Rightarrow> Platform list option" where
  "readPlatforms h p =
     (case getArray h p of
        None \<Rightarrow> None
      | Some prs \<Rightarrow> those (map (readPlatform h) prs))"

text \<open>
  The body of the outer loop for the vehicle at \<open>x\<close>: the scan only reads; the writes are the
  two of the push, or the two new objects and the push onto the array of platforms.
\<close>

definition placeHeap :: "ScoringWeights \<Rightarrow> ref \<Rightarrow> heap \<Rightarrow> ref \<Rightarrow> heap option" where
  "placeHeap weights p h x =
     (case (readPlatforms h p, getArray h p, getAssigned h x) of
        (Some platforms, Some prs, Some train) \<Rightarrow>
          (let bestIdx = fst (scan weights platforms train) in
           if bestIdx \<ge> 0 then
             (if nat bestIdx < length prs then
                (case getObj h (prs ! nat bestIdx) of
                   Some (PlatformObj i tr nf) \<Rightarrow>
                     (case getArray h tr of
                        None \<Rightarrow> None
                      | Some xs \<Rightarrow>
                          Some ((h[tr := ArrayObj (xs @ [x])])
                                  [prs ! nat bestIdx :=
                                     PlatformObj i tr (effectiveDeparture train)]))
                 | _ \<Rightarrow> None)
              else None)
           else
             (case alloc h (ArrayObj [x]) of
                (h1, tr) \<Rightarrow>
                  (case alloc h1 (PlatformObj (length prs + 1) tr (effectiveDeparture train)) of
                     (h2, pr) \<Rightarrow> Some (h2[p := ArrayObj (prs @ [pr])]))))
      | _ \<Rightarrow> None)"

fun forEach :: "(heap \<Rightarrow> ref \<Rightarrow> heap option) \<Rightarrow> ref list \<Rightarrow> heap \<Rightarrow> heap option" where
  "forEach f [] h = Some h"
| "forEach f (x # xs) h = (case f h x of None \<Rightarrow> None | Some h' \<Rightarrow> forEach f xs h')"

text \<open>
  The whole function, for the caller's array at \<open>trainsRef\<close>; the result is the new heap and
  the reference of the array of platforms. The outer loop takes the elements of the sorted
  array as they are when it starts.
\<close>

definition assignHeap :: "heap \<Rightarrow> ref \<Rightarrow> ScoringWeights \<Rightarrow> (heap \<times> ref) option" where
  "assignHeap h trainsRef weights =
     (case getArray h trainsRef of
        None \<Rightarrow> None
      | Some rs \<Rightarrow>
          (case mapWithEffective h rs of
             None \<Rightarrow> None
           | Some (h1, xs) \<Rightarrow>
               (case alloc h1 (ArrayObj xs) of
                  (h2, a) \<Rightarrow>
                    (case sortHeap h2 a of
                       None \<Rightarrow> None
                     | Some h3 \<Rightarrow>
                         (case alloc h3 (ArrayObj []) of
                            (h4, p) \<Rightarrow>
                              (case getArray h4 a of
                                 None \<Rightarrow> None
                               | Some sortedRefs \<Rightarrow>
                                   (case forEach (placeHeap weights p) sortedRefs h4 of
                                      None \<Rightarrow> None
                                    | Some h5 \<Rightarrow> Some (h5, p))))))))"

subsection \<open>Derived metrics\<close>

record Metrics =
  endMetric :: real
  totalDelay :: real
  delayedCount :: nat
  totalTrains :: nat

text \<open>The body of the loop of \<^verbatim>\<open>platformMetrics\<close>: the entry stored for one platform.\<close>

definition metricsOf :: "Platform \<Rightarrow> Metrics" where
  "metricsOf pl =
     (let n = length (trains pl);
          d = foldl (\<lambda>sum t. sum + delay t) 0 (trains pl);
          c = length (filter (\<lambda>t. status t = Delayed) (trains pl));
          e = (if n > 0 then (d + real c) / real n else 0)
      in \<lparr>endMetric = e, totalDelay = d, delayedCount = c, totalTrains = n\<rparr>)"

definition platformMetrics :: "Platform list \<Rightarrow> (nat \<rightharpoonup> Metrics)" where
  "platformMetrics platforms =
     foldl (\<lambda>m pl. m(id_platform pl \<mapsto> metricsOf pl)) Map.empty platforms"

subsection \<open>The worked example of the specification\<close>

definition vehicleA :: Train where
  "vehicleA = \<lparr>id_train = ''A'', name = ''A'', arrival = 0, departure = 20, delay = 0,
                status = OnTime\<rparr>"

definition vehicleB :: Train where
  "vehicleB = \<lparr>id_train = ''B'', name = ''B'', arrival = 10, departure = 30, delay = 0,
                status = OnTime\<rparr>"

definition vehicleC :: Train where
  "vehicleC = \<lparr>id_train = ''C'', name = ''C'', arrival = 25, departure = 40, delay = 0,
                status = OnTime\<rparr>"

text \<open>A delayed vehicle followed by one on time, with total delay 10.\<close>

definition vehicleD :: Train where
  "vehicleD = \<lparr>id_train = ''D'', name = ''D'', arrival = 0, departure = 10, delay = 10,
                status = Delayed\<rparr>"

definition vehicleE :: Train where
  "vehicleE = \<lparr>id_train = ''E'', name = ''E'', arrival = 30, departure = 40, delay = 0,
                status = OnTime\<rparr>"

text \<open>A heap of the caller: the three vehicles of the worked example and the array of them.\<close>

definition heapABC :: heap where
  "heapABC = [TrainObj vehicleC, TrainObj vehicleB, TrainObj vehicleA, ArrayObj [2, 1, 0]]"

subsection \<open>Auxiliary notions for the proofs\<close>

text \<open>The two possible results of one round of the outer loop.\<close>

definition pushed :: "Platform list \<Rightarrow> nat \<Rightarrow> AssignedTrain \<Rightarrow> Platform list" where
  "pushed ps b t =
     ps[b := (ps ! b)\<lparr>trains := trains (ps ! b) @ [t], nextFreeAt := effectiveDeparture t\<rparr>]"

definition opened :: "Platform list \<Rightarrow> AssignedTrain \<Rightarrow> Platform list" where
  "opened ps t =
     ps @ [\<lparr>id_platform = length ps + 1, trains = [t], nextFreeAt = effectiveDeparture t\<rparr>]"

text \<open>
  The loop invariant of the scan after \<open>n\<close> iterations: either nothing feasible was seen and
  the pair is still the initial one, or the pair names the first feasible platform of minimal
  score among the first \<open>n\<close>.
\<close>

definition scan_ok ::
  "ScoringWeights \<Rightarrow> Platform list \<Rightarrow> AssignedTrain \<Rightarrow> nat \<Rightarrow> int \<times> real option \<Rightarrow> bool" where
  "scan_ok w ps t n r \<longleftrightarrow>
     (fst r = - 1 \<and> snd r = None \<and> (\<forall>j<n. \<not> nextFreeAt (ps ! j) \<le> effectiveArrival t)) \<or>
     (\<exists>b<n. fst r = int b \<and> snd r = Some (score w (ps ! b) t) \<and>
        nextFreeAt (ps ! b) \<le> effectiveArrival t \<and>
        (\<forall>j<n. nextFreeAt (ps ! j) \<le> effectiveArrival t
           \<longrightarrow> score w (ps ! b) t \<le> score w (ps ! j) t) \<and>
        (\<forall>j<b. nextFreeAt (ps ! j) \<le> effectiveArrival t
           \<longrightarrow> score w (ps ! b) t < score w (ps ! j) t))"

text \<open>
  The invariants of the outer loop: every platform carries its position as id, is non-empty and
  is free from the departure of its last vehicle on; and the vehicles of every platform follow
  each other without overlap.
\<close>

definition tracked :: "Platform list \<Rightarrow> bool" where
  "tracked ps \<longleftrightarrow>
     (\<forall>i<length ps. id_platform (ps ! i) = i + 1 \<and> trains (ps ! i) \<noteq> [] \<and>
        nextFreeAt (ps ! i) = effectiveDeparture (last (trains (ps ! i))))"

definition chained :: "AssignedTrain list \<Rightarrow> bool" where
  "chained xs \<longleftrightarrow>
     (\<forall>k. Suc k < length xs \<longrightarrow> effectiveDeparture (xs ! k) \<le> effectiveArrival (xs ! Suc k))"

definition all_chained :: "Platform list \<Rightarrow> bool" where
  "all_chained ps \<longleftrightarrow> (\<forall>i<length ps. chained (trains (ps ! i)))"

text \<open>
  For the heap: a later heap extends an earlier one above \<open>n\<close> when the first \<open>n\<close> objects are
  the same and every \<^verbatim>\<open>AssignedTrain\<close> object is still there; and the invariant of the outer
  loop, that the array at \<open>p\<close> holds the platforms \<open>ps\<close> in objects created after the first
  \<open>n\<close>, no two of which share a platform object or an array of vehicles.
\<close>

definition ext :: "nat \<Rightarrow> heap \<Rightarrow> heap \<Rightarrow> bool" where
  "ext n h h' \<longleftrightarrow>
     n \<le> length h \<and> length h \<le> length h' \<and> take n h' = take n h \<and>
     (\<forall>x t. getAssigned h x = Some t \<longrightarrow> getAssigned h' x = Some t)"

definition plat_at :: "nat \<Rightarrow> heap \<Rightarrow> ref \<Rightarrow> ref \<Rightarrow> ref \<Rightarrow> Platform \<Rightarrow> bool" where
  "plat_at n h p pr tr pl \<longleftrightarrow>
     n \<le> pr \<and> pr < length h \<and> n \<le> tr \<and> tr < length h \<and> tr \<noteq> p \<and>
     h ! pr = PlatformObj (id_platform pl) tr (nextFreeAt pl) \<and>
     (\<exists>xs. h ! tr = ArrayObj xs \<and> map (getAssigned h) xs = map Some (trains pl))"

definition heap_inv :: "nat \<Rightarrow> heap \<Rightarrow> ref \<Rightarrow> ref list \<Rightarrow> ref list \<Rightarrow> Platform list \<Rightarrow> bool" where
  "heap_inv n h p prs trs ps \<longleftrightarrow>
     length prs = length ps \<and> length trs = length ps \<and> n \<le> p \<and> p < length h \<and>
     h ! p = ArrayObj prs \<and> distinct prs \<and> distinct trs \<and>
     (\<forall>i<length ps. plat_at n h p (prs ! i) (trs ! i) (ps ! i))"

section \<open>The engine on double-precision numbers\<close>

subsection \<open>Numbers of the run-time system\<close>

text \<open>
  The arithmetic is not part of the repository; it is modelled from the language standard
  (ECMAScript, the Number type), which prescribes IEEE 754 binary64 with rounding to nearest,
  ties to even. A number is a real (\<open>Fin\<close>), one of the two infinities, or NaN. The two zeros
  are not distinguished: they compare equal, and of the operations the source applies only
  a division by zero tells them apart, while the source divides by a positive array length
  only. \<open>Fin x\<close> is a value of the run-time system when \<open>x\<close> is representable, that is, when
  \<open>round_double x = Fin x\<close>.
\<close>

datatype num = Fin real | PInf | NInf | NaN

text \<open>The integer nearest to \<open>r\<close>, the even one of two.\<close>

definition rne :: "real \<Rightarrow> int" where
  "rne r =
     (let f = \<lfloor>r\<rfloor>; d = r - of_int f
      in if d < 1 / 2 then f else if d > 1 / 2 then f + 1 else if even f then f else f + 1)"

text \<open>
  The exponent of the unit in the last place at \<open>x\<close>: 52 below the exponent of \<open>x\<close>, and
  \<open>-1074\<close> in the subnormal range. \<open>nearest x\<close> is the multiple of that unit nearest to \<open>x\<close>,
  ties to the even multiple.
\<close>

definition ulp_exponent :: "real \<Rightarrow> int" where
  "ulp_exponent x = max (- 1074) (\<lfloor>log 2 \<bar>x\<bar>\<rfloor> - 52)"

definition nearest :: "real \<Rightarrow> real" where
  "nearest x =
     (if x = 0 then 0
      else of_int (rne (x / 2 powr of_int (ulp_exponent x))) * 2 powr of_int (ulp_exponent x))"

text \<open>
  Rounding of the exact result of an operation: a magnitude of at least
  \<open>2\<^sup>1\<^sup>0\<^sup>2\<^sup>4 - 2\<^sup>9\<^sup>7\<^sup>0\<close>, halfway between the largest finite value and \<open>2\<^sup>1\<^sup>0\<^sup>2\<^sup>4\<close>, becomes
  an infinity.
\<close>

definition round_double :: "real \<Rightarrow> num" where
  "round_double x =
     (if \<bar>x\<bar> \<ge> 2 ^ 1024 - 2 ^ 970 then (if x > 0 then PInf else NInf) else Fin (nearest x))"

text \<open>The operators \<^verbatim>\<open>+\<close>, \<^verbatim>\<open>-\<close>, \<^verbatim>\<open>*\<close>, \<^verbatim>\<open>/\<close>, \<^verbatim>\<open><\<close> and \<^verbatim>\<open><=\<close> on numbers.\<close>

fun neg_num :: "num \<Rightarrow> num" where
  "neg_num (Fin a) = Fin (- a)"
| "neg_num PInf = NInf"
| "neg_num NInf = PInf"
| "neg_num NaN = NaN"

fun add_num :: "num \<Rightarrow> num \<Rightarrow> num" where
  "add_num (Fin a) (Fin b) = round_double (a + b)"
| "add_num NaN _ = NaN"
| "add_num _ NaN = NaN"
| "add_num PInf NInf = NaN"
| "add_num NInf PInf = NaN"
| "add_num PInf _ = PInf"
| "add_num _ PInf = PInf"
| "add_num NInf _ = NInf"
| "add_num _ NInf = NInf"

definition sub_num :: "num \<Rightarrow> num \<Rightarrow> num" where
  "sub_num a b = add_num a (neg_num b)"

fun mul_num :: "num \<Rightarrow> num \<Rightarrow> num" where
  "mul_num (Fin a) (Fin b) = round_double (a * b)"
| "mul_num NaN _ = NaN"
| "mul_num _ NaN = NaN"
| "mul_num (Fin a) PInf = (if a = 0 then NaN else if a > 0 then PInf else NInf)"
| "mul_num (Fin a) NInf = (if a = 0 then NaN else if a > 0 then NInf else PInf)"
| "mul_num PInf (Fin b) = (if b = 0 then NaN else if b > 0 then PInf else NInf)"
| "mul_num NInf (Fin b) = (if b = 0 then NaN else if b > 0 then NInf else PInf)"
| "mul_num PInf PInf = PInf"
| "mul_num PInf NInf = NInf"
| "mul_num NInf PInf = NInf"
| "mul_num NInf NInf = PInf"

fun div_num :: "num \<Rightarrow> num \<Rightarrow> num" where
  "div_num (Fin a) (Fin b) =
     (if b = 0 then (if a = 0 then NaN else if a > 0 then PInf else NInf)
      else round_double (a / b))"
| "div_num NaN _ = NaN"
| "div_num _ NaN = NaN"
| "div_num (Fin a) PInf = Fin 0"
| "div_num (Fin a) NInf = Fin 0"
| "div_num PInf (Fin b) = (if b \<ge> 0 then PInf else NInf)"
| "div_num NInf (Fin b) = (if b \<ge> 0 then NInf else PInf)"
| "div_num PInf PInf = NaN"
| "div_num PInf NInf = NaN"
| "div_num NInf PInf = NaN"
| "div_num NInf NInf = NaN"

fun lt_num :: "num \<Rightarrow> num \<Rightarrow> bool" where
  "lt_num (Fin a) (Fin b) = (a < b)"
| "lt_num NaN _ = False"
| "lt_num _ NaN = False"
| "lt_num _ NInf = False"
| "lt_num PInf _ = False"
| "lt_num NInf _ = True"
| "lt_num _ PInf = True"

definition le_num :: "num \<Rightarrow> num \<Rightarrow> bool" where
  "le_num a b \<longleftrightarrow> lt_num a b \<or> (a = b \<and> a \<noteq> NaN)"

text \<open>\<^verbatim>\<open>Math.max\<close> of two arguments and \<^verbatim>\<open>Math.abs\<close>.\<close>

definition max_num :: "num \<Rightarrow> num \<Rightarrow> num" where
  "max_num a b = (if a = NaN \<or> b = NaN then NaN else if lt_num a b then b else a)"

fun abs_num :: "num \<Rightarrow> num" where
  "abs_num (Fin a) = Fin \<bar>a\<bar>"
| "abs_num PInf = PInf"
| "abs_num NInf = PInf"
| "abs_num NaN = NaN"

text \<open>
  The text \<^verbatim>\<open>x.toFixed(2)\<close>: for a finite \<open>x\<close> of magnitude below \<open>10\<^sup>2\<^sup>1\<close> the digits of the
  integer \<open>n\<close> for which \<open>n / 100\<close> is nearest to the magnitude of \<open>x\<close>, the larger one of two,
  with two of them behind the point and the sign of \<open>x\<close> (\<open>Hundredths\<close> of the signed \<open>n\<close>; the
  texts \<^verbatim>\<open>-0.00\<close> and \<^verbatim>\<open>0.00\<close> are not distinguished); otherwise the text of the number itself
  (\<open>Plain\<close>). \<open>numberOf\<close> is \<^verbatim>\<open>Number(text)\<close>, the value nearest to the decimal the text
  denotes.
\<close>

datatype fixed = Hundredths int | Plain num

definition toFixed2D :: "num \<Rightarrow> fixed" where
  "toFixed2D v =
     (case v of
        Fin x \<Rightarrow>
          if \<bar>x\<bar> \<ge> 10 ^ 21 then Plain (Fin x)
          else if x < 0 then Hundredths (- \<lfloor>(- x) * 100 + 1 / 2\<rfloor>)
          else Hundredths \<lfloor>x * 100 + 1 / 2\<rfloor>
      | _ \<Rightarrow> Plain v)"

fun numberOf :: "fixed \<Rightarrow> num" where
  "numberOf (Hundredths n) = round_double (of_int n / 100)"
| "numberOf (Plain v) = v"

subsection \<open>Data model and engine\<close>

text \<open>
  The types and functions of the source once more, with the fields of type \<^verbatim>\<open>number\<close> and
  the operations on them as above. The length of an array and the count of delayed vehicles
  are whole numbers below \<open>2\<^sup>3\<^sup>2\<close>, on which the arithmetic of the run-time system is exact;
  they are natural numbers here.
\<close>

record TrainD =
  id_trainD :: string
  nameD :: string
  arrivalD :: num
  departureD :: num
  delayD :: num
  statusD :: status

record AssignedTrainD = TrainD +
  effectiveArrivalD :: num
  effectiveDepartureD :: num

record PlatformD =
  id_platformD :: nat
  trainsD :: "AssignedTrainD list"
  nextFreeAtD :: num

record ScoringWeightsD =
  idleGapD :: num
  loadD :: num
  delayedSpreadD :: num

text \<open>The literals \<^verbatim>\<open>1.0\<close>, \<^verbatim>\<open>0.3\<close> and \<^verbatim>\<open>0.5\<close> denote the values nearest to them.\<close>

definition DEFAULT_WEIGHTS_D :: ScoringWeightsD where
  "DEFAULT_WEIGHTS_D =
     \<lparr>idleGapD = round_double 1.0, loadD = round_double 0.3, delayedSpreadD = round_double 0.5\<rparr>"

definition withEffective1D :: "TrainD \<Rightarrow> AssignedTrainD" where
  "withEffective1D t =
     TrainD.extend t \<lparr>effectiveArrivalD = add_num (arrivalD t) (delayD t),
                      effectiveDepartureD = add_num (departureD t) (delayD t)\<rparr>"

definition byEffectiveArrivalD :: "AssignedTrainD \<Rightarrow> AssignedTrainD \<Rightarrow> num" where
  "byEffectiveArrivalD a b = sub_num (effectiveArrivalD a) (effectiveArrivalD b)"

text \<open>
  The sort reads the result of the comparator by its sign and takes NaN for zero. When an
  effective arrival is NaN the comparator is not a consistent one and the standard leaves the
  order to the implementation; the properties below that speak of a run are therefore stated
  for the outer loop run over any sequence of vehicles.
\<close>

fun compare_value :: "num \<Rightarrow> real" where
  "compare_value (Fin v) = v"
| "compare_value PInf = 1"
| "compare_value NInf = - 1"
| "compare_value NaN = 0"

definition withEffectiveD :: "TrainD list \<Rightarrow> AssignedTrainD list" where
  "withEffectiveD ts =
     array_sort (\<lambda>a b. compare_value (byEffectiveArrivalD a b)) (map withEffective1D ts)"

definition delayedCountOfD :: "AssignedTrainD list \<Rightarrow> nat" where
  "delayedCountOfD ts = foldl (\<lambda>acc t. acc + (if statusD t = Delayed then 1 else 0)) 0 ts"

definition scoreD :: "ScoringWeightsD \<Rightarrow> PlatformD \<Rightarrow> AssignedTrainD \<Rightarrow> num" where
  "scoreD weights pl trn =
     (let gap = max_num (Fin 0) (sub_num (effectiveArrivalD trn) (nextFreeAtD pl));
          loadN = Fin (real (length (trainsD pl)));
          delayedCount = Fin (real (delayedCountOfD (trainsD pl)))
      in add_num (add_num (mul_num (idleGapD weights) gap) (mul_num (loadD weights) loadN))
           (mul_num (delayedSpreadD weights) delayedCount))"

text \<open>
  The scan: \<open>best\<close> is the pair of \<^verbatim>\<open>bestIdx\<close> and \<^verbatim>\<open>bestScore\<close>, initially \<open>-1\<close> and
  \<^verbatim>\<open>Number.POSITIVE_INFINITY\<close>.
\<close>

definition scan_stepD ::
  "ScoringWeightsD \<Rightarrow> PlatformD list \<Rightarrow> AssignedTrainD \<Rightarrow> int \<times> num \<Rightarrow> nat \<Rightarrow> int \<times> num" where
  "scan_stepD weights platforms trn best i =
     (let pl = platforms ! i in
      if le_num (nextFreeAtD pl) (effectiveArrivalD trn) then
        (let sc = scoreD weights pl trn in
         if lt_num sc (snd best) then (int i, sc) else best)
      else best)"

definition scanD :: "ScoringWeightsD \<Rightarrow> PlatformD list \<Rightarrow> AssignedTrainD \<Rightarrow> int \<times> num" where
  "scanD weights platforms trn =
     foldl (scan_stepD weights platforms trn) (- 1, PInf) [0..<length platforms]"

definition placeD :: "ScoringWeightsD \<Rightarrow> PlatformD list \<Rightarrow> AssignedTrainD \<Rightarrow> PlatformD list" where
  "placeD weights platforms trn =
     (let bestIdx = fst (scanD weights platforms trn) in
      if bestIdx \<ge> 0 then
        (let pl = platforms ! nat bestIdx in
         platforms[nat bestIdx :=
           pl\<lparr>trainsD := trainsD pl @ [trn], nextFreeAtD := effectiveDepartureD trn\<rparr>])
      else
        platforms @ [\<lparr>id_platformD = length platforms + 1, trainsD = [trn],
                      nextFreeAtD = effectiveDepartureD trn\<rparr>])"

definition assignPlatformsScoreBasedD :: "TrainD list \<Rightarrow> ScoringWeightsD \<Rightarrow> PlatformD list" where
  "assignPlatformsScoreBasedD ts weights = foldl (placeD weights) [] (withEffectiveD ts)"

definition after_placingD :: "TrainD list \<Rightarrow> ScoringWeightsD \<Rightarrow> nat \<Rightarrow> PlatformD list" where
  "after_placingD ts weights k = foldl (placeD weights) [] (take k (withEffectiveD ts))"

subsection \<open>Derived metrics on double-precision numbers\<close>

record MetricsD =
  endMetricD :: num
  totalDelayD :: num
  delayedCountD :: nat
  totalTrainsD :: nat

definition metricsOfD :: "PlatformD \<Rightarrow> MetricsD" where
  "metricsOfD pl =
     (let n = length (trainsD pl);
          d = foldl (\<lambda>sum t. add_num sum (delayD t)) (Fin 0) (trainsD pl);
          c = length (filter (\<lambda>t. statusD t = Delayed) (trainsD pl));
          e = (if n > 0 then div_num (add_num d (Fin (real c))) (Fin (real n)) else Fin 0)
      in \<lparr>endMetricD = e, totalDelayD = d, delayedCountD = c, totalTrainsD = n\<rparr>)"

definition platformMetricsD :: "PlatformD list \<Rightarrow> (nat \<rightharpoonup> MetricsD)" where
  "platformMetricsD platforms =
     foldl (\<lambda>m pl. m(id_platformD pl \<mapsto> metricsOfD pl)) Map.empty platforms"

text \<open>\<^verbatim>\<open>metrics ? metrics.endMetric : 0\<close> for \<^verbatim>\<open>metrics = platformMetrics.get(pl.id)\<close>.\<close>

definition endMetricForD :: "PlatformD list \<Rightarrow> PlatformD \<Rightarrow> num" where
  "endMetricForD platforms pl =
     (case platformMetricsD platforms (id_platformD pl) of
        Some metrics \<Rightarrow> endMetricD metrics
      | None \<Rightarrow> Fin 0)"

record DelayComparisonRowD =
  trainD :: string
  fullNameD :: string
  prevDelayD :: num
  newDelayD :: num

definition delayComparisonDataD :: "PlatformD list \<Rightarrow> DelayComparisonRowD list" where
  "delayComparisonDataD platforms =
     concat (map (\<lambda>pl.
       let endMetric = endMetricForD platforms pl in
       map (\<lambda>t.
         let prev = delayD t;
             reachTableNewDelay = abs_num (sub_num endMetric prev)
         in \<lparr>trainD = id_trainD t, fullNameD = nameD t, prevDelayD = prev,
             newDelayD = numberOf (toFixed2D reachTableNewDelay)\<rparr>) (trainsD pl)) platforms)"

text \<open>
  A row of the Scheduling Metrics table: the constants \<^verbatim>\<open>prevDelay\<close> and \<^verbatim>\<open>newDelay\<close> of the
  source and the cell \<^verbatim>\<open>newDelay.toFixed(2)\<close> (the End Time cell is left out).
\<close>

record SchedulingMetricsRowD =
  rowNameD :: string
  rowPlatformD :: nat
  rowPrevDelayD :: num
  rowNewDelayD :: num
  rowNewDelayCellD :: fixed

definition schedulingMetricsRowsD :: "PlatformD list \<Rightarrow> SchedulingMetricsRowD list" where
  "schedulingMetricsRowsD platforms =
     concat (map (\<lambda>pl.
       let endMetric = endMetricForD platforms pl in
       map (\<lambda>t.
         let prevDelay = delayD t;
             newDelay = max_num (Fin 0) (sub_num prevDelay endMetric)
         in \<lparr>rowNameD = nameD t, rowPlatformD = id_platformD pl, rowPrevDelayD = prevDelay,
             rowNewDelayD = newDelay, rowNewDelayCellD = toFixed2D newDelay\<rparr>) (trainsD pl))
       platforms)"

subsection \<open>Example vehicles\<close>

text \<open>
  A vehicle whose delay is NaN, one whose delay is \<open>2\<^sup>5\<^sup>3\<close> minutes and that stays for one
  minute, and the vehicle A of the worked example.
\<close>

definition vehicleNaN :: TrainD where
  "vehicleNaN = \<lparr>id_trainD = ''N'', nameD = ''N'', arrivalD = Fin 0, departureD = Fin 20,
                  delayD = NaN, statusD = Delayed\<rparr>"

definition vehicleBig :: TrainD where
  "vehicleBig = \<lparr>id_trainD = ''M'', nameD = ''M'', arrivalD = Fin 0, departureD = Fin 1,
                  delayD = Fin (2 ^ 53), statusD = Delayed\<rparr>"

definition vehicleAD :: TrainD where
  "vehicleAD = \<lparr>id_trainD = ''A'', nameD = ''A'', arrivalD = Fin 0, departureD = Fin 20,
                 delayD = Fin 0, statusD = OnTime\<rparr>"






text \<open>
  A vehicle delayed by 6 minutes followed by two on time, and the one platform the engine
  puts them on.
\<close>

definition vehicleFD :: TrainD where
  "vehicleFD = \<lparr>id_trainD = ''F'', nameD = ''F'', arrivalD = Fin 0, departureD = Fin 10,
                 delayD = Fin 6, statusD = Delayed\<rparr>"

definition vehicleGD :: TrainD where
  "vehicleGD = \<lparr>id_trainD = ''G'', nameD = ''G'', arrivalD = Fin 20, departureD = Fin 30,
                 delayD = Fin 0, statusD = OnTime\<rparr>"

definition vehicleHD :: TrainD where
  "vehicleHD = \<lparr>id_trainD = ''H'', nameD = ''H'', arrivalD = Fin 40, departureD = Fin 50,
                 delayD = Fin 0, statusD = OnTime\<rparr>"

definition platformFGH :: PlatformD where
  "platformFGH =
     \<lparr>id_platformD = 1,
      trainsD = [withEffective1D vehicleFD, withEffective1D vehicleGD, withEffective1D vehicleHD],
      nextFreeAtD = Fin 50\<rparr>"

subsection \<open>Auxiliary notions for the proofs on double-precision numbers\<close>

text \<open>
  A platform takes part in the choice when it is feasible and its score is below positive
  infinity; \<open>scan_okD\<close> is the invariant of the scan after \<open>n\<close> platforms.
\<close>

definition eligible :: "ScoringWeightsD \<Rightarrow> PlatformD list \<Rightarrow> AssignedTrainD \<Rightarrow> nat \<Rightarrow> bool" where
  "eligible w ps t j \<longleftrightarrow>
     le_num (nextFreeAtD (ps ! j)) (effectiveArrivalD t) \<and> lt_num (scoreD w (ps ! j) t) PInf"

definition scan_okD ::
  "ScoringWeightsD \<Rightarrow> PlatformD list \<Rightarrow> AssignedTrainD \<Rightarrow> nat \<Rightarrow> int \<times> num \<Rightarrow> bool" where
  "scan_okD w ps t n r \<longleftrightarrow>
     (fst r = - 1 \<and> snd r = PInf \<and> (\<forall>j<n. \<not> eligible w ps t j)) \<or>
     (\<exists>b<n. fst r = int b \<and> snd r = scoreD w (ps ! b) t \<and> eligible w ps t b \<and>
        (\<forall>j<n. eligible w ps t j \<longrightarrow> le_num (scoreD w (ps ! b) t) (scoreD w (ps ! j) t)) \<and>
        (\<forall>j<b. eligible w ps t j \<longrightarrow> lt_num (scoreD w (ps ! b) t) (scoreD w (ps ! j) t)))"

definition pushedD :: "PlatformD list \<Rightarrow> nat \<Rightarrow> AssignedTrainD \<Rightarrow> PlatformD list" where
  "pushedD ps b t =
     ps[b := (ps ! b)\<lparr>trainsD := trainsD (ps ! b) @ [t], nextFreeAtD := effectiveDepartureD t\<rparr>]"

definition openedD :: "PlatformD list \<Rightarrow> AssignedTrainD \<Rightarrow> PlatformD list" where
  "openedD ps t =
     ps @ [\<lparr>id_platformD = length ps + 1, trainsD = [t], nextFreeAtD = effectiveDepartureD t\<rparr>]"

definition numberedD :: "PlatformD list \<Rightarrow> bool" where
  "numberedD ps \<longleftrightarrow> (\<forall>i<length ps. id_platformD (ps ! i) = i + 1)"

text \<open>A finite number of magnitude at most \<open>B\<close>.\<close>

definition bounded :: "num \<Rightarrow> real \<Rightarrow> bool" where
  "bounded v B \<longleftrightarrow> (\<exists>y. v = Fin y \<and> \<bar>y\<bar> \<le> B)"

section \<open>Properties\<close>

subsection \<open>The sort\<close>

lemma mset_insert_cmp: "mset (insert_cmp cmp x ys) = add_mset x (mset ys)"
  by (induction ys) simp_all

lemma mset_array_sort: "mset (array_sort cmp xs) = mset xs"
  by (induction xs) (simp_all add: array_sort_def mset_insert_cmp)

lemma insert_cmp_insort_key:
  "insert_cmp byEffectiveArrival x ys = insort_key effectiveArrival x ys"
  by (induction ys) (simp_all add: byEffectiveArrival_def)

lemma array_sort_sort_key:
  "array_sort byEffectiveArrival xs = sort_key effectiveArrival xs"
  by (induction xs) (simp_all add: array_sort_def insert_cmp_insort_key)

lemma withEffective_sort_key:
  "withEffective ts = sort_key effectiveArrival (map withEffective1 ts)"
  by (simp add: withEffective_def array_sort_sort_key)

text \<open>
  Claim C5. The processing order is the stable sort of the annotated vehicles by
  effectiveArrival alone: it is ascending in effectiveArrival, it is a permutation of the
  annotated input, and for every key value the vehicles with that effectiveArrival come in the
  order they have in the input.
\<close>

theorem processing_order_stable:
  "sorted (map effectiveArrival (withEffective ts)) \<and>
   mset (withEffective ts) = mset (map withEffective1 ts) \<and>
   (\<forall>k. filter (\<lambda>t. effectiveArrival t = k) (withEffective ts)
        = filter (\<lambda>t. effectiveArrival t = k) (map withEffective1 ts))"
  by (simp add: withEffective_sort_key sort_key_stable)

subsection \<open>The scan\<close>

lemma scan_ok_step:
  assumes "scan_ok w ps t n r"
  shows "scan_ok w ps t (Suc n) (scan_step w ps t r n)"
proof (cases "nextFreeAt (ps ! n) \<le> effectiveArrival t")
  case False
  then have "scan_step w ps t r n = r" by (simp add: scan_step_def)
  with assms False show ?thesis
    unfolding scan_ok_def by (auto simp: less_Suc_eq)
next
  case feas: True
  from assms consider
    (none) "fst r = - 1" "snd r = None" "\<forall>j<n. \<not> nextFreeAt (ps ! j) \<le> effectiveArrival t"
  | (some) b where "b < n" "fst r = int b" "snd r = Some (score w (ps ! b) t)"
      "nextFreeAt (ps ! b) \<le> effectiveArrival t"
      "\<forall>j<n. nextFreeAt (ps ! j) \<le> effectiveArrival t \<longrightarrow> score w (ps ! b) t \<le> score w (ps ! j) t"
      "\<forall>j<b. nextFreeAt (ps ! j) \<le> effectiveArrival t \<longrightarrow> score w (ps ! b) t < score w (ps ! j) t"
    unfolding scan_ok_def by (elim disjE exE conjE) simp_all
  then show ?thesis
  proof cases
    case none
    then have "scan_step w ps t r n = (int n, Some (score w (ps ! n) t))"
      using feas by (simp add: scan_step_def less_best_def)
    with none feas show ?thesis
      unfolding scan_ok_def by (auto simp: less_Suc_eq)
  next
    case some
    show ?thesis
    proof (cases "score w (ps ! n) t < score w (ps ! b) t")
      case True
      then have "scan_step w ps t r n = (int n, Some (score w (ps ! n) t))"
        using feas some by (simp add: scan_step_def less_best_def)
      moreover have "\<forall>j<Suc n. nextFreeAt (ps ! j) \<le> effectiveArrival t
          \<longrightarrow> score w (ps ! n) t \<le> score w (ps ! j) t"
        using some(5) True by (fastforce simp: less_Suc_eq)
      moreover have "\<forall>j<n. nextFreeAt (ps ! j) \<le> effectiveArrival t
          \<longrightarrow> score w (ps ! n) t < score w (ps ! j) t"
        using some(5) True by fastforce
      ultimately show ?thesis
        unfolding scan_ok_def using feas by auto
    next
      case False
      then have "scan_step w ps t r n = r"
        using feas some by (simp add: scan_step_def less_best_def)
      moreover have "\<forall>j<Suc n. nextFreeAt (ps ! j) \<le> effectiveArrival t
          \<longrightarrow> score w (ps ! b) t \<le> score w (ps ! j) t"
        using some(5) False by (auto simp: less_Suc_eq)
      ultimately show ?thesis
        unfolding scan_ok_def using some by (auto simp: less_Suc_eq)
    qed
  qed
qed

lemma scan_ok_prefix:
  "scan_ok w ps t n (foldl (scan_step w ps t) (- 1, None) [0..<n])"
proof (induction n)
  case 0
  show ?case by (simp add: scan_ok_def)
next
  case (Suc n)
  then show ?case using scan_ok_step by simp
qed

lemma scan_ok_scan: "scan_ok w ps t (length ps) (scan w ps t)"
  unfolding scan_def by (rule scan_ok_prefix)

subsection \<open>One round of the outer loop\<close>

lemma place_cases:
  obtains (push) b where "b < length ps" "fst (scan w ps t) = int b"
      "nextFreeAt (ps ! b) \<le> effectiveArrival t" "place w ps t = pushed ps b t"
  | (new) "fst (scan w ps t) = - 1"
      "\<forall>j<length ps. \<not> nextFreeAt (ps ! j) \<le> effectiveArrival t"
      "place w ps t = opened ps t"
proof -
  have "scan_ok w ps t (length ps) (scan w ps t)" by (rule scan_ok_scan)
  then consider
    (a) "fst (scan w ps t) = - 1" "\<forall>j<length ps. \<not> nextFreeAt (ps ! j) \<le> effectiveArrival t"
  | (b) b where "b < length ps" "fst (scan w ps t) = int b"
      "nextFreeAt (ps ! b) \<le> effectiveArrival t"
    unfolding scan_ok_def by (elim disjE exE conjE) simp_all
  then show thesis
  proof cases
    case a
    then have "place w ps t = opened ps t"
      by (simp add: place_def opened_def)
    with a show thesis by (rule new)
  next
    case b
    then have "place w ps t = pushed ps b t"
      by (simp add: place_def pushed_def Let_def)
    with b show thesis by (intro push)
  qed
qed

lemma mset_concat_pushed:
  "b < length ps \<Longrightarrow>
   mset (concat (map trains (pushed ps b t))) = add_mset t (mset (concat (map trains ps)))"
  unfolding pushed_def
proof (induction ps arbitrary: b)
  case Nil
  then show ?case by simp
next
  case (Cons p ps)
  then show ?case by (cases b) simp_all
qed

lemma mset_concat_opened:
  "mset (concat (map trains (opened ps t))) = add_mset t (mset (concat (map trains ps)))"
  by (simp add: opened_def)

lemma mset_concat_place:
  "mset (concat (map trains (place w ps t))) = add_mset t (mset (concat (map trains ps)))"
  by (cases w ps t rule: place_cases) (simp_all add: mset_concat_pushed mset_concat_opened)

lemma mset_concat_foldl_place:
  "mset (concat (map trains (foldl (place w) ps ts)))
     = mset (concat (map trains ps)) + mset ts"
  by (induction ts arbitrary: ps) (simp_all add: mset_concat_place)

lemma truncate_withEffective1: "Train.truncate (withEffective1 t) = t"
  by (simp add: withEffective1_def Train.extend_def Train.truncate_def)

lemma mset_assigned:
  "mset (concat (map trains (assignPlatformsScoreBased ts w))) = mset (map withEffective1 ts)"
  by (simp add: assignPlatformsScoreBased_def mset_concat_foldl_place withEffective_def
      mset_array_sort)

subsection \<open>The partition\<close>

lemma in_nth_Union:
  "n < length xss \<Longrightarrow> x \<in> set (xss ! n) \<Longrightarrow> x \<in> \<Union> (set ` set xss)"
  using nth_mem by blast

lemma distinct_concat_index:
  "distinct (concat xss) \<Longrightarrow> i < length xss \<Longrightarrow> j < length xss \<Longrightarrow>
   x \<in> set (xss ! i) \<Longrightarrow> x \<in> set (xss ! j) \<Longrightarrow> i = j"
proof (induction xss arbitrary: i j)
  case Nil
  then show ?case by simp
next
  case (Cons ys xss)
  show ?case
  proof (cases i)
    case 0
    then show ?thesis using Cons.prems by (cases j) (auto dest: in_nth_Union)
  next
    case (Suc i')
    then show ?thesis using Cons by (cases j) (auto dest: in_nth_Union)
  qed
qed

lemma length_concat_trains:
  "sum_list (map (\<lambda>pl. length (trains pl)) ps) = length (concat (map trains ps))"
  by (simp add: length_concat comp_def)

text \<open>
  Claim C1. The platforms returned by the engine partition the input: the vehicles on the
  platforms, with the two effective times dropped, are the input vehicles with their
  multiplicities; the lengths of the platforms' sequences add up to the length of the input; no
  vehicles give no platforms; and when the input vehicles are pairwise different, each is on
  exactly one platform.
\<close>

theorem assign_partitions_input:
  "mset (map Train.truncate (concat (map trains (assignPlatformsScoreBased ts w)))) = mset ts \<and>
   mset (concat (map trains (assignPlatformsScoreBased ts w))) = mset (map withEffective1 ts) \<and>
   sum_list (map (\<lambda>pl. length (trains pl)) (assignPlatformsScoreBased ts w)) = length ts \<and>
   assignPlatformsScoreBased [] w = [] \<and>
   (distinct ts \<longrightarrow>
      (\<forall>t\<in>set ts. \<exists>!i. i < length (assignPlatformsScoreBased ts w) \<and>
          withEffective1 t \<in> set (trains (assignPlatformsScoreBased ts w ! i))))"
proof -
  let ?ps = "assignPlatformsScoreBased ts w"
  let ?xs = "concat (map trains ?ps)"
  have m: "mset ?xs = mset (map withEffective1 ts)" by (rule mset_assigned)
  have "mset (map Train.truncate ?xs) = image_mset Train.truncate (mset ?xs)" by simp
  also have "\<dots> = mset ts"
    unfolding m by (simp add: multiset.map_comp comp_def truncate_withEffective1)
  finally have p1: "mset (map Train.truncate ?xs) = mset ts" .
  have "length ?xs = length (map withEffective1 ts)"
    using m by (rule mset_eq_length)
  then have p3: "sum_list (map (\<lambda>pl. length (trains pl)) ?ps) = length ts"
    by (simp add: length_concat_trains)
  have p4: "assignPlatformsScoreBased [] w = []"
    by (simp add: assignPlatformsScoreBased_def withEffective_def array_sort_def)
  have p5: "\<exists>!i. i < length ?ps \<and> withEffective1 t \<in> set (trains (?ps ! i))"
    if d: "distinct ts" and t: "t \<in> set ts" for t
  proof -
    have "inj withEffective1"
      by (rule inj_on_inverseI [where g = Train.truncate]) (simp add: truncate_withEffective1)
    then have "distinct (map withEffective1 ts)"
      using d by (simp add: distinct_map inj_on_def)
    then have dx: "distinct ?xs"
      using m mset_eq_imp_distinct_iff by blast
    have "set ?xs = set (map withEffective1 ts)"
      using m by (rule mset_eq_setD)
    then have "withEffective1 t \<in> set ?xs"
      using t by simp
    then obtain pl where "pl \<in> set ?ps" "withEffective1 t \<in> set (trains pl)"
      by auto
    then obtain i where i: "i < length ?ps" "withEffective1 t \<in> set (trains (?ps ! i))"
      by (auto simp: in_set_conv_nth)
    show ?thesis
    proof (rule ex1I [of _ i])
      show "i < length ?ps \<and> withEffective1 t \<in> set (trains (?ps ! i))" using i by simp
    next
      fix j assume j: "j < length ?ps \<and> withEffective1 t \<in> set (trains (?ps ! j))"
      show "j = i"
        using distinct_concat_index [OF dx, of j i "withEffective1 t"] i j by simp
    qed
  qed
  show ?thesis using p1 m p3 p4 p5 by blast
qed

theorem assign_partitions_input_witness:
  "distinct [vehicleA, vehicleB, vehicleC] \<and>
   vehicleB \<in> set [vehicleA, vehicleB, vehicleC] \<and>
   (\<exists>!i. i < length (assignPlatformsScoreBased [vehicleA, vehicleB, vehicleC] DEFAULT_WEIGHTS) \<and>
        withEffective1 vehicleB
          \<in> set (trains (assignPlatformsScoreBased [vehicleA, vehicleB, vehicleC] DEFAULT_WEIGHTS ! i)))"
proof -
  have d: "distinct [vehicleA, vehicleB, vehicleC]"
    by (simp add: vehicleA_def vehicleB_def vehicleC_def)
  have m: "vehicleB \<in> set [vehicleA, vehicleB, vehicleC]"
    by simp
  show ?thesis
    using d m assign_partitions_input [of "[vehicleA, vehicleB, vehicleC]" DEFAULT_WEIGHTS]
    by blast
qed

subsection \<open>Invariants of the outer loop\<close>

lemma length_pushed: "length (pushed ps b t) = length ps"
  by (simp add: pushed_def)

lemma nth_pushed_same:
  "b < length ps \<Longrightarrow>
   pushed ps b t ! b = (ps ! b)\<lparr>trains := trains (ps ! b) @ [t], nextFreeAt := effectiveDeparture t\<rparr>"
  by (simp add: pushed_def)

lemma nth_pushed_other: "i \<noteq> b \<Longrightarrow> pushed ps b t ! i = ps ! i"
  by (simp add: pushed_def)

lemma tracked_pushed: "tracked ps \<Longrightarrow> b < length ps \<Longrightarrow> tracked (pushed ps b t)"
  unfolding tracked_def length_pushed
proof (intro allI impI)
  fix i assume a: "\<forall>i<length ps. id_platform (ps ! i) = i + 1 \<and> trains (ps ! i) \<noteq> [] \<and>
        nextFreeAt (ps ! i) = effectiveDeparture (last (trains (ps ! i)))"
    and b: "b < length ps" and i: "i < length ps"
  show "id_platform (pushed ps b t ! i) = i + 1 \<and> trains (pushed ps b t ! i) \<noteq> [] \<and>
        nextFreeAt (pushed ps b t ! i) = effectiveDeparture (last (trains (pushed ps b t ! i)))"
  proof (cases "i = b")
    case True
    then show ?thesis using a b by (simp add: nth_pushed_same)
  next
    case False
    then show ?thesis using a i by (simp add: nth_pushed_other)
  qed
qed

lemma tracked_opened: "tracked ps \<Longrightarrow> tracked (opened ps t)"
  by (auto simp: tracked_def opened_def nth_append less_Suc_eq)

lemma tracked_place: "tracked ps \<Longrightarrow> tracked (place w ps t)"
  by (cases w ps t rule: place_cases) (simp_all add: tracked_pushed tracked_opened)

lemma tracked_foldl: "tracked ps \<Longrightarrow> tracked (foldl (place w) ps xs)"
  by (induction xs arbitrary: ps) (simp_all add: tracked_place)

lemma tracked_after_placing: "tracked (after_placing ts w k)"
  unfolding after_placing_def by (rule tracked_foldl) (simp add: tracked_def)

lemma length_withEffective: "length (withEffective ts) = length ts"
  using mset_eq_length [OF mset_array_sort [of byEffectiveArrival "map withEffective1 ts"]]
  by (simp add: withEffective_def)

lemma assign_after_placing:
  "assignPlatformsScoreBased ts w = after_placing ts w (length ts)"
  by (simp add: assignPlatformsScoreBased_def after_placing_def length_withEffective)

lemma after_placing_Suc:
  "k < length ts \<Longrightarrow>
   after_placing ts w (Suc k) = place w (after_placing ts w k) (withEffective ts ! k)"
  by (simp add: after_placing_def take_Suc_conv_app_nth length_withEffective)

lemma chained_snoc:
  assumes "chained xs" "xs \<noteq> []" "effectiveDeparture (last xs) \<le> effectiveArrival t"
  shows "chained (xs @ [t])"
  unfolding chained_def
proof (intro allI impI)
  fix k assume k: "Suc k < length (xs @ [t])"
  show "effectiveDeparture ((xs @ [t]) ! k) \<le> effectiveArrival ((xs @ [t]) ! Suc k)"
  proof (cases "Suc k < length xs")
    case True
    then show ?thesis using assms(1) by (simp add: chained_def nth_append)
  next
    case False
    with k have e: "Suc k = length xs" by simp
    then have "k = length xs - 1" by simp
    then have "xs ! k = last xs" using assms(2) by (simp add: last_conv_nth)
    then show ?thesis using e assms(3) by (simp add: nth_append)
  qed
qed

lemma all_chained_pushed:
  assumes "tracked ps" "all_chained ps" "b < length ps"
    "nextFreeAt (ps ! b) \<le> effectiveArrival t"
  shows "all_chained (pushed ps b t)"
  unfolding all_chained_def length_pushed
proof (intro allI impI)
  fix i assume i: "i < length ps"
  show "chained (trains (pushed ps b t ! i))"
  proof (cases "i = b")
    case True
    have "chained (trains (ps ! b) @ [t])"
      using assms by (intro chained_snoc) (simp_all add: tracked_def all_chained_def)
    then show ?thesis using True assms(3) by (simp add: nth_pushed_same)
  next
    case False
    then show ?thesis using assms(2) i by (simp add: nth_pushed_other all_chained_def)
  qed
qed

lemma all_chained_opened: "all_chained ps \<Longrightarrow> all_chained (opened ps t)"
  by (auto simp: all_chained_def opened_def nth_append less_Suc_eq chained_def)

lemma all_chained_place:
  "tracked ps \<Longrightarrow> all_chained ps \<Longrightarrow> all_chained (place w ps t)"
  by (cases w ps t rule: place_cases) (simp_all add: all_chained_pushed all_chained_opened)

lemma all_chained_foldl:
  "tracked ps \<Longrightarrow> all_chained ps \<Longrightarrow> all_chained (foldl (place w) ps xs)"
  by (induction xs arbitrary: ps) (simp_all add: all_chained_place tracked_place)

lemma all_chained_assign: "all_chained (assignPlatformsScoreBased ts w)"
  unfolding assignPlatformsScoreBased_def
  by (rule all_chained_foldl) (simp_all add: tracked_def all_chained_def)

subsection \<open>Evaluation on the example vehicles\<close>

lemmas engine_defs =
  assignPlatformsScoreBased_def withEffective_def array_sort_def
  byEffectiveArrival_def withEffective1_def Train.extend_def place_def scan_def scan_step_def
  score_def less_best_def delayedCountOf_def DEFAULT_WEIGHTS_def upt_conv_Cons Let_def

lemma assign_ABC:
  "assignPlatformsScoreBased [vehicleA, vehicleB, vehicleC] DEFAULT_WEIGHTS =
     [\<lparr>id_platform = 1, trains = [withEffective1 vehicleA, withEffective1 vehicleC],
       nextFreeAt = 40\<rparr>,
      \<lparr>id_platform = 2, trains = [withEffective1 vehicleB], nextFreeAt = 30\<rparr>]"
  by (simp add: engine_defs vehicleA_def vehicleB_def vehicleC_def)

subsection \<open>Bookkeeping of the platforms\<close>

text \<open>
  Claim C9. In every platform of the result, nextFreeAt is the effectiveDeparture of the last
  vehicle of its (non-empty) sequence and the id is the 1-based position in the list. The same
  holds for the platform list after each round of the outer loop, where the list after \<open>k + 1\<close>
  rounds comes from the list after \<open>k\<close> rounds by placing the \<open>k\<close>-th vehicle of the sorted
  order, starting from the empty list and ending in the result.
\<close>

theorem platform_bookkeeping:
  "(\<forall>i<length (assignPlatformsScoreBased ts w).
      id_platform (assignPlatformsScoreBased ts w ! i) = i + 1 \<and>
      trains (assignPlatformsScoreBased ts w ! i) \<noteq> [] \<and>
      nextFreeAt (assignPlatformsScoreBased ts w ! i)
        = effectiveDeparture (last (trains (assignPlatformsScoreBased ts w ! i)))) \<and>
   (\<forall>k. \<forall>i<length (after_placing ts w k).
      id_platform (after_placing ts w k ! i) = i + 1 \<and>
      trains (after_placing ts w k ! i) \<noteq> [] \<and>
      nextFreeAt (after_placing ts w k ! i)
        = effectiveDeparture (last (trains (after_placing ts w k ! i)))) \<and>
   after_placing ts w 0 = [] \<and>
   (\<forall>k<length ts. after_placing ts w (Suc k)
        = place w (after_placing ts w k) (withEffective ts ! k)) \<and>
   after_placing ts w (length ts) = assignPlatformsScoreBased ts w"
proof -
  have a: "tracked (after_placing ts w k)" for k by (rule tracked_after_placing)
  have b: "tracked (assignPlatformsScoreBased ts w)"
    unfolding assign_after_placing by (rule a)
  have c: "after_placing ts w 0 = []" by (simp add: after_placing_def)
  show ?thesis
    using a b c after_placing_Suc [of _ ts w] assign_after_placing [of ts w]
    unfolding tracked_def by simp
qed

theorem platform_bookkeeping_witness:
  "0 < length (assignPlatformsScoreBased [vehicleA, vehicleB, vehicleC] DEFAULT_WEIGHTS) \<and>
   id_platform (assignPlatformsScoreBased [vehicleA, vehicleB, vehicleC] DEFAULT_WEIGHTS ! 0) = 0 + 1 \<and>
   nextFreeAt (assignPlatformsScoreBased [vehicleA, vehicleB, vehicleC] DEFAULT_WEIGHTS ! 0)
     = effectiveDeparture
         (last (trains (assignPlatformsScoreBased [vehicleA, vehicleB, vehicleC] DEFAULT_WEIGHTS ! 0)))"
proof -
  have h: "0 < length (assignPlatformsScoreBased [vehicleA, vehicleB, vehicleC] DEFAULT_WEIGHTS)"
    by (simp add: assign_ABC)
  show ?thesis
    using h platform_bookkeeping [of "[vehicleA, vehicleB, vehicleC]" DEFAULT_WEIGHTS]
    by blast
qed

subsection \<open>No overlap\<close>

text \<open>
  Claim C2. In every platform of the result, of two vehicles that follow each other in the
  sequence the later one arrives (effectively) no earlier than the earlier one departs. One
  round of the outer loop either opens a new platform at the end of the list or pushes the
  vehicle onto a platform whose nextFreeAt does not exceed the vehicle's effectiveArrival.
\<close>

theorem consecutive_vehicles_do_not_overlap:
  "(\<forall>pl\<in>set (assignPlatformsScoreBased ts w). \<forall>k. Suc k < length (trains pl) \<longrightarrow>
      effectiveDeparture (trains pl ! k) \<le> effectiveArrival (trains pl ! Suc k)) \<and>
   (place w ps t = ps @ [\<lparr>id_platform = length ps + 1, trains = [t],
                           nextFreeAt = effectiveDeparture t\<rparr>] \<or>
    (\<exists>b<length ps. nextFreeAt (ps ! b) \<le> effectiveArrival t \<and>
       place w ps t = ps[b := (ps ! b)\<lparr>trains := trains (ps ! b) @ [t],
                                       nextFreeAt := effectiveDeparture t\<rparr>]))"
proof
  have "all_chained (assignPlatformsScoreBased ts w)" by (rule all_chained_assign)
  then show "\<forall>pl\<in>set (assignPlatformsScoreBased ts w). \<forall>k. Suc k < length (trains pl) \<longrightarrow>
      effectiveDeparture (trains pl ! k) \<le> effectiveArrival (trains pl ! Suc k)"
    unfolding all_chained_def chained_def by (metis in_set_conv_nth)
next
  show "place w ps t = ps @ [\<lparr>id_platform = length ps + 1, trains = [t],
                           nextFreeAt = effectiveDeparture t\<rparr>] \<or>
    (\<exists>b<length ps. nextFreeAt (ps ! b) \<le> effectiveArrival t \<and>
       place w ps t = ps[b := (ps ! b)\<lparr>trains := trains (ps ! b) @ [t],
                                       nextFreeAt := effectiveDeparture t\<rparr>])"
    by (cases w ps t rule: place_cases) (auto simp: pushed_def opened_def)
qed

theorem consecutive_vehicles_do_not_overlap_witness:
  "\<lparr>id_platform = 1, trains = [withEffective1 vehicleA, withEffective1 vehicleC],
     nextFreeAt = 40\<rparr>
     \<in> set (assignPlatformsScoreBased [vehicleA, vehicleB, vehicleC] DEFAULT_WEIGHTS) \<and>
   Suc 0 < length [withEffective1 vehicleA, withEffective1 vehicleC] \<and>
   effectiveDeparture ([withEffective1 vehicleA, withEffective1 vehicleC] ! 0)
     \<le> effectiveArrival ([withEffective1 vehicleA, withEffective1 vehicleC] ! Suc 0)"
proof -
  let ?pl = "\<lparr>id_platform = 1, trains = [withEffective1 vehicleA, withEffective1 vehicleC],
     nextFreeAt = 40\<rparr>"
  have h1: "?pl \<in> set (assignPlatformsScoreBased [vehicleA, vehicleB, vehicleC] DEFAULT_WEIGHTS)"
    by (simp add: assign_ABC)
  have h2: "Suc 0 < length (trains ?pl)" by simp
  have "effectiveDeparture (trains ?pl ! 0) \<le> effectiveArrival (trains ?pl ! Suc 0)"
    using h1 h2
      consecutive_vehicles_do_not_overlap [of "[vehicleA, vehicleB, vehicleC]" DEFAULT_WEIGHTS]
    by blast
  then show ?thesis using h1 by simp
qed

subsection \<open>Metrics\<close>

lemma foldl_add_delay: "foldl (\<lambda>sum t. sum + delay t) a xs = a + sum_list (map delay xs)"
  by (induction xs arbitrary: a) simp_all

lemma platformMetrics_snoc:
  "platformMetrics (ps @ [p]) = (platformMetrics ps)(id_platform p \<mapsto> metricsOf p)"
  by (simp add: platformMetrics_def)

lemma platformMetrics_distinct:
  "distinct (map id_platform ps) \<Longrightarrow> pl \<in> set ps \<Longrightarrow>
   platformMetrics ps (id_platform pl) = Some (metricsOf pl)"
proof (induction ps rule: rev_induct)
  case Nil
  then show ?case by simp
next
  case (snoc p ps)
  show ?case
  proof (cases "pl = p")
    case True
    then show ?thesis by (simp add: platformMetrics_snoc)
  next
    case False
    with snoc.prems have m: "pl \<in> set ps" by simp
    then have "id_platform pl \<in> id_platform ` set ps" by (rule imageI)
    with snoc.prems have "id_platform pl \<noteq> id_platform p" by auto
    with snoc m show ?thesis by (simp add: platformMetrics_snoc)
  qed
qed

lemma tracked_distinct_ids: "tracked ps \<Longrightarrow> distinct (map id_platform ps)"
  by (simp add: distinct_conv_nth tracked_def)

lemma tracked_assign: "tracked (assignPlatformsScoreBased ts w)"
  unfolding assign_after_placing by (rule tracked_after_placing)

lemma platformMetrics_assign:
  "pl \<in> set (assignPlatformsScoreBased ts w) \<Longrightarrow>
   platformMetrics (assignPlatformsScoreBased ts w) (id_platform pl) = Some (metricsOf pl)"
  by (rule platformMetrics_distinct [OF tracked_distinct_ids [OF tracked_assign]])

lemma nth_concat_offset:
  "i < length xss \<Longrightarrow> j < length (xss ! i) \<Longrightarrow>
   length (concat (take i xss)) + j < length (concat xss) \<and>
   concat xss ! (length (concat (take i xss)) + j) = xss ! i ! j"
proof (induction xss arbitrary: i)
  case Nil
  then show ?case by simp
next
  case (Cons ys xss)
  show ?case
  proof (cases i)
    case 0
    with Cons.prems show ?thesis by (simp add: nth_append)
  next
    case (Suc i')
    with Cons.prems Cons.IH [of i'] show ?thesis by (simp add: nth_append)
  qed
qed

lemma assign_DE:
  "assignPlatformsScoreBased [vehicleD, vehicleE] DEFAULT_WEIGHTS =
     [\<lparr>id_platform = 1, trains = [withEffective1 vehicleD, withEffective1 vehicleE],
       nextFreeAt = 40\<rparr>]"
  by (simp add: engine_defs vehicleD_def vehicleE_def)

text \<open>
  Claim C7. For every platform of an assignment result, \<^verbatim>\<open>platformMetrics\<close> holds under the
  platform's id the entry computed from that platform, in which totalTrains is the number of
  its vehicles, totalDelay the sum of their delays, delayedCount the number of those with
  status Delayed, and endMetric is (totalDelay + delayedCount) / totalTrains when totalTrains
  is positive and 0 otherwise; with totalDelay 10, delayedCount 1 and totalTrains 2 the
  endMetric is 5.5.
\<close>

theorem end_metric_formula:
  "(\<forall>p\<in>set (assignPlatformsScoreBased ts w).
      platformMetrics (assignPlatformsScoreBased ts w) (id_platform p) = Some (metricsOf p)) \<and>
   totalTrains (metricsOf pl) = length (trains pl) \<and>
   totalDelay (metricsOf pl) = sum_list (map delay (trains pl)) \<and>
   delayedCount (metricsOf pl) = length (filter (\<lambda>t. status t = Delayed) (trains pl)) \<and>
   endMetric (metricsOf pl)
     = (if totalTrains (metricsOf pl) > 0
        then (totalDelay (metricsOf pl) + real (delayedCount (metricsOf pl)))
               / real (totalTrains (metricsOf pl))
        else 0) \<and>
   (totalDelay (metricsOf pl) = 10 \<and> delayedCount (metricsOf pl) = 1 \<and>
    totalTrains (metricsOf pl) = 2 \<longrightarrow> endMetric (metricsOf pl) = 5.5)"
proof -
  have a: "\<forall>p\<in>set (assignPlatformsScoreBased ts w).
      platformMetrics (assignPlatformsScoreBased ts w) (id_platform p) = Some (metricsOf p)"
    by (simp add: platformMetrics_assign)
  have b: "totalTrains (metricsOf pl) = length (trains pl)"
    by (simp add: metricsOf_def Let_def)
  have c: "totalDelay (metricsOf pl) = sum_list (map delay (trains pl))"
    by (simp add: metricsOf_def Let_def foldl_add_delay)
  have d: "delayedCount (metricsOf pl) = length (filter (\<lambda>t. status t = Delayed) (trains pl))"
    by (simp add: metricsOf_def Let_def)
  have e: "endMetric (metricsOf pl)
     = (if totalTrains (metricsOf pl) > 0
        then (totalDelay (metricsOf pl) + real (delayedCount (metricsOf pl)))
               / real (totalTrains (metricsOf pl))
        else 0)"
    by (simp add: metricsOf_def Let_def)
  have f: "endMetric (metricsOf pl) = 5.5"
    if "totalDelay (metricsOf pl) = 10 \<and> delayedCount (metricsOf pl) = 1 \<and>
        totalTrains (metricsOf pl) = 2"
    using that by (simp add: e)
  show ?thesis using a b c d e f by blast
qed

theorem end_metric_formula_witness:
  "\<lparr>id_platform = 1, trains = [withEffective1 vehicleD, withEffective1 vehicleE],
      nextFreeAt = 40\<rparr> \<in> set (assignPlatformsScoreBased [vehicleD, vehicleE] DEFAULT_WEIGHTS) \<and>
   platformMetrics (assignPlatformsScoreBased [vehicleD, vehicleE] DEFAULT_WEIGHTS) 1
     = Some (metricsOf \<lparr>id_platform = 1,
          trains = [withEffective1 vehicleD, withEffective1 vehicleE], nextFreeAt = 40\<rparr>) \<and>
   totalDelay (metricsOf \<lparr>id_platform = 1,
          trains = [withEffective1 vehicleD, withEffective1 vehicleE], nextFreeAt = 40\<rparr>) = 10 \<and>
   delayedCount (metricsOf \<lparr>id_platform = 1,
          trains = [withEffective1 vehicleD, withEffective1 vehicleE], nextFreeAt = 40\<rparr>) = 1 \<and>
   totalTrains (metricsOf \<lparr>id_platform = 1,
          trains = [withEffective1 vehicleD, withEffective1 vehicleE], nextFreeAt = 40\<rparr>) = 2 \<and>
   endMetric (metricsOf \<lparr>id_platform = 1,
          trains = [withEffective1 vehicleD, withEffective1 vehicleE], nextFreeAt = 40\<rparr>) = 5.5"
proof -
  let ?pl = "\<lparr>id_platform = 1, trains = [withEffective1 vehicleD, withEffective1 vehicleE],
      nextFreeAt = 40\<rparr>"
  have m: "?pl \<in> set (assignPlatformsScoreBased [vehicleD, vehicleE] DEFAULT_WEIGHTS)"
    by (simp add: assign_DE)
  have h1: "totalDelay (metricsOf ?pl) = 10"
    by (simp add: metricsOf_def withEffective1_def Train.extend_def vehicleD_def vehicleE_def)
  have h2: "delayedCount (metricsOf ?pl) = 1"
    by (simp add: metricsOf_def withEffective1_def Train.extend_def vehicleD_def vehicleE_def)
  have h3: "totalTrains (metricsOf ?pl) = 2"
    by (simp add: metricsOf_def Let_def)
  have i: "id_platform ?pl = 1" by simp
  show ?thesis
    using m h1 h2 h3 i end_metric_formula [of "[vehicleD, vehicleE]" DEFAULT_WEIGHTS ?pl]
    by metis
qed

subsection \<open>The engine on the heap\<close>

lemma those_eq_Some: "those xs = Some ys \<longleftrightarrow> xs = map Some ys"
proof (induction xs arbitrary: ys)
  case Nil
  then show ?case by auto
next
  case (Cons x xs)
  show ?case
  proof (cases x)
    case None
    then show ?thesis by auto
  next
    case (Some a)
    show ?thesis
    proof (cases "those xs")
      case None
      then have "\<And>zs. xs \<noteq> map Some zs" using Cons.IH by simp
      then show ?thesis using None Some by (cases ys) auto
    next
      case zs: (Some zs)
      then have "xs = map Some zs" using Cons.IH by simp
      then show ?thesis using zs Some by (cases ys) auto
    qed
  qed
qed

lemma those_map_Some: "those (map Some ys) = Some ys"
  by (simp add: those_eq_Some)

lemma getTrain_iff: "getTrain h r = Some t \<longleftrightarrow> r < length h \<and> h ! r = TrainObj t"
  by (auto simp: getTrain_def getObj_def split: obj.splits)

lemma getAssigned_iff: "getAssigned h r = Some t \<longleftrightarrow> r < length h \<and> h ! r = AssignedObj t"
  by (auto simp: getAssigned_def getObj_def split: obj.splits)

lemma getArray_iff: "getArray h r = Some xs \<longleftrightarrow> r < length h \<and> h ! r = ArrayObj xs"
  by (auto simp: getArray_def getObj_def split: obj.splits)

lemma getObj_iff: "getObj h r = Some ob \<longleftrightarrow> r < length h \<and> h ! r = ob"
  by (auto simp: getObj_def)

lemma map_getTrain_append:
  "map (getTrain h) rs = map Some ts \<Longrightarrow> map (getTrain (h @ k)) rs = map Some ts"
  by (induction rs arbitrary: ts) (auto simp: getTrain_iff nth_append)

lemma mapWithEffective_eq:
  "map (getTrain h) rs = map Some ts \<Longrightarrow>
   mapWithEffective h rs
     = Some (h @ map (\<lambda>t. AssignedObj (withEffective1 t)) ts,
             [length h..<length h + length ts])"
proof (induction rs arbitrary: h ts)
  case Nil
  then show ?case by simp
next
  case (Cons r rs)
  then obtain t ts' where ts: "ts = t # ts'" "getTrain h r = Some t"
    "map (getTrain h) rs = map Some ts'"
    by (cases ts) auto
  have "map (getTrain (h @ [AssignedObj (withEffective1 t)])) rs = map Some ts'"
    using ts(3) by (rule map_getTrain_append)
  from Cons.IH [OF this]
  have "mapWithEffective (h @ [AssignedObj (withEffective1 t)]) rs
     = Some (h @ AssignedObj (withEffective1 t) # map (\<lambda>t. AssignedObj (withEffective1 t)) ts',
             [Suc (length h)..<Suc (length h) + length ts'])"
    by simp
  moreover have "[length h..<length h + length ts]
      = length h # [Suc (length h)..<Suc (length h) + length ts']"
    unfolding ts(1) by (subst upt_conv_Cons) simp_all
  ultimately show ?case
    using ts by (simp add: alloc_def)
qed

lemma ext_refl: "n \<le> length h \<Longrightarrow> ext n h h"
  by (simp add: ext_def)

lemma ext_trans: "ext n h h' \<Longrightarrow> ext n h' h'' \<Longrightarrow> ext n h h''"
  by (auto simp: ext_def)

lemma ext_append: "n \<le> length h \<Longrightarrow> ext n h (h @ k)"
  by (auto simp: ext_def getAssigned_iff nth_append)

lemma ext_update:
  assumes "n \<le> length h" "n \<le> u" "\<forall>t. h ! u \<noteq> AssignedObj t"
  shows "ext n h (h[u := ob])"
proof -
  have "getAssigned (h[u := ob]) x = Some t" if "getAssigned h x = Some t" for x t
  proof -
    from that have x: "x < length h" "h ! x = AssignedObj t" by (simp_all add: getAssigned_iff)
    with assms(3) have "x \<noteq> u" by auto
    with x show ?thesis by (simp add: getAssigned_iff)
  qed
  then show ?thesis using assms(1,2) by (simp add: ext_def)
qed

lemma map_getAssigned_ext:
  "ext n h h' \<Longrightarrow> map (getAssigned h) xs = map Some ts \<Longrightarrow>
   map (getAssigned h') xs = map Some ts"
  by (induction xs arbitrary: ts) (auto simp: ext_def)

lemma plat_at_ext_update:
  assumes "plat_at n h p pr tr pl" "u < length h" "u \<noteq> pr" "u \<noteq> tr" "n \<le> u"
    "\<forall>t. h ! u \<noteq> AssignedObj t"
  shows "plat_at n (h[u := ob]) p pr tr pl"
proof -
  have "n \<le> length h" using assms(2,5) by simp
  then have e: "ext n h (h[u := ob])" using assms(5,6) by (rule ext_update)
  from assms(1) obtain xs where xs: "h ! tr = ArrayObj xs"
    "map (getAssigned h) xs = map Some (trains pl)"
    by (auto simp: plat_at_def)
  have "map (getAssigned (h[u := ob])) xs = map Some (trains pl)"
    using e xs(2) by (rule map_getAssigned_ext)
  then show ?thesis
    using assms xs(1) by (auto simp: plat_at_def)
qed

lemma plat_at_append:
  assumes "plat_at n h p pr tr pl"
  shows "plat_at n (h @ k) p pr tr pl"
proof -
  from assms obtain xs where xs: "h ! tr = ArrayObj xs"
    "map (getAssigned h) xs = map Some (trains pl)"
    by (auto simp: plat_at_def)
  have "n \<le> length h" using assms by (simp add: plat_at_def)
  then have "ext n h (h @ k)" by (rule ext_append)
  then have "map (getAssigned (h @ k)) xs = map Some (trains pl)"
    using xs(2) by (rule map_getAssigned_ext)
  then show ?thesis
    using assms xs(1) by (auto simp: plat_at_def nth_append)
qed

lemma readPlatform_plat_at: "plat_at n h p pr tr pl \<Longrightarrow> readPlatform h pr = Some pl"
  by (auto simp: plat_at_def readPlatform_def getObj_def getArray_def those_map_Some)

lemma readPlatforms_heap_inv:
  assumes "heap_inv n h p prs trs ps"
  shows "readPlatforms h p = Some ps"
proof -
  have "map (readPlatform h) prs = map Some ps"
    using assms
    by (auto simp: heap_inv_def list_eq_iff_nth_eq intro: readPlatform_plat_at)
  moreover have "getArray h p = Some prs"
    using assms by (simp add: heap_inv_def getArray_iff)
  ultimately show ?thesis
    by (simp add: readPlatforms_def those_eq_Some)
qed

lemma heap_inv_nth:
  "heap_inv n h p prs trs ps \<Longrightarrow> i < length ps \<Longrightarrow> plat_at n h p (prs ! i) (trs ! i) (ps ! i)"
  by (simp add: heap_inv_def)

lemma placeHeap_push:
  assumes inv: "heap_inv n h p prs trs ps" and x: "getAssigned h x = Some t"
    and b: "b < length ps" "fst (scan w ps t) = int b"
  shows "\<exists>h'. placeHeap w p h x = Some h' \<and> heap_inv n h' p prs trs (pushed ps b t) \<and> ext n h h'"
proof -
  let ?pr = "prs ! b" and ?tr = "trs ! b"
  have len: "length prs = length ps" "length trs = length ps"
    and p: "n \<le> p" "p < length h" "h ! p = ArrayObj prs"
    and dist: "distinct prs" "distinct trs"
    using inv by (simp_all add: heap_inv_def)
  have pb: "plat_at n h p ?pr ?tr (ps ! b)" using inv b(1) by (rule heap_inv_nth)
  then obtain xs where pr: "n \<le> ?pr" "?pr < length h"
    and tr: "n \<le> ?tr" "?tr < length h" "?tr \<noteq> p"
    and hpr: "h ! ?pr = PlatformObj (id_platform (ps ! b)) ?tr (nextFreeAt (ps ! b))"
    and htr: "h ! ?tr = ArrayObj xs"
    and xs: "map (getAssigned h) xs = map Some (trains (ps ! b))"
    by (auto simp: plat_at_def)
  have ne: "?pr \<noteq> ?tr" "?pr \<noteq> p" using hpr htr p(3) by auto
  define h1 where "h1 = h[?tr := ArrayObj (xs @ [x])]"
  define h' where "h' = h1[?pr := PlatformObj (id_platform (ps ! b)) ?tr (effectiveDeparture t)]"
  have n: "n \<le> length h" using p by simp
  have e1: "ext n h h1"
    unfolding h1_def using n tr(1) htr by (intro ext_update) simp_all
  have h1pr: "h1 ! ?pr = h ! ?pr" using ne by (simp add: h1_def)
  have e2: "ext n h1 h'"
    unfolding h'_def using n pr(1) h1pr hpr by (intro ext_update) (simp_all add: h1_def)
  have e: "ext n h h'" using e1 e2 by (rule ext_trans)
  have ga: "getArray h p = Some prs" "getArray h ?tr = Some xs"
    "getObj h ?pr = Some (PlatformObj (id_platform (ps ! b)) ?tr (nextFreeAt (ps ! b)))"
    using p tr pr hpr htr by (simp_all add: getArray_iff getObj_iff)
  have run: "placeHeap w p h x = Some h'"
    using b len
    by (simp add: placeHeap_def readPlatforms_heap_inv [OF inv] x ga h'_def h1_def Let_def)
  have lh: "length h' = length h" by (simp add: h'_def h1_def)
  have hp: "h' ! p = ArrayObj prs"
    using p tr(3) ne by (simp add: h'_def h1_def)
  have at: "plat_at n h' p (prs ! i) (trs ! i) (pushed ps b t ! i)" if i: "i < length ps" for i
  proof (cases "i = b")
    case True
    have "map (getAssigned h') (xs @ [x]) = map Some (trains (ps ! b) @ [t])"
      using map_getAssigned_ext [OF e xs] map_getAssigned_ext [OF e, of "[x]" "[t]"] x
      by simp
    moreover have "h' ! ?tr = ArrayObj (xs @ [x])"
      using tr ne by (simp add: h'_def h1_def)
    moreover have "h' ! ?pr = PlatformObj (id_platform (ps ! b)) ?tr (effectiveDeparture t)"
      using pr by (simp add: h'_def h1_def)
    ultimately show ?thesis
      using True b(1) pr tr lh by (simp add: plat_at_def nth_pushed_same)
  next
    case False
    have pi: "plat_at n h p (prs ! i) (trs ! i) (ps ! i)" using inv i by (rule heap_inv_nth)
    then have ty: "\<exists>ys. h ! (trs ! i) = ArrayObj ys" "\<exists>a c d. h ! (prs ! i) = PlatformObj a c d"
      by (auto simp: plat_at_def)
    have d1: "?tr \<noteq> trs ! i" "?pr \<noteq> prs ! i"
      using False i b(1) len dist by (simp_all add: nth_eq_iff_index_eq)
    have d2: "?tr \<noteq> prs ! i" "?pr \<noteq> trs ! i"
      using ty hpr htr by auto
    have "plat_at n h1 p (prs ! i) (trs ! i) (ps ! i)"
      unfolding h1_def using pi tr(2) d2(1) d1(1) tr(1) htr
      by (intro plat_at_ext_update) simp_all
    then have "plat_at n h' p (prs ! i) (trs ! i) (ps ! i)"
      unfolding h'_def using pr d1(2) d2(2) h1pr hpr
      by (intro plat_at_ext_update) (simp_all add: h1_def)
    then show ?thesis using False by (simp add: nth_pushed_other)
  qed
  have "heap_inv n h' p prs trs (pushed ps b t)"
    using len p dist hp at lh by (simp add: heap_inv_def length_pushed)
  with run e show ?thesis by blast
qed

lemma placeHeap_new:
  assumes inv: "heap_inv n h p prs trs ps" and x: "getAssigned h x = Some t"
    and b: "fst (scan w ps t) = - 1"
  shows "\<exists>h'. placeHeap w p h x = Some h' \<and>
     heap_inv n h' p (prs @ [length h + 1]) (trs @ [length h]) (opened ps t) \<and> ext n h h'"
proof -
  have len: "length prs = length ps" "length trs = length ps"
    and p: "n \<le> p" "p < length h" "h ! p = ArrayObj prs"
    and dist: "distinct prs" "distinct trs"
    using inv by (simp_all add: heap_inv_def)
  define h2 where
    "h2 = h @ [ArrayObj [x], PlatformObj (length prs + 1) (length h) (effectiveDeparture t)]"
  define h' where "h' = h2[p := ArrayObj (prs @ [length h + 1])]"
  have n: "n \<le> length h" using p by simp
  have e1: "ext n h h2" unfolding h2_def using n by (rule ext_append)
  have h2p: "h2 ! p = ArrayObj prs" using p by (simp add: h2_def nth_append)
  have e2: "ext n h2 h'"
    unfolding h'_def using n p(1) h2p by (intro ext_update) (simp_all add: h2_def)
  have e: "ext n h h'" using e1 e2 by (rule ext_trans)
  have ga: "getArray h p = Some prs"
    using p by (simp add: getArray_iff)
  have run: "placeHeap w p h x = Some h'"
    using b
    by (simp add: placeHeap_def readPlatforms_heap_inv [OF inv] x ga alloc_def h'_def h2_def
        Let_def)
  have lh: "length h' = length h + 2" by (simp add: h'_def h2_def)
  have hp: "h' ! p = ArrayObj (prs @ [length h + 1])"
    using p by (simp add: h'_def h2_def)
  have old: "plat_at n h p (prs ! i) (trs ! i) (ps ! i)" if "i < length ps" for i
    using inv that by (rule heap_inv_nth)
  have lt: "\<forall>r\<in>set prs. r < length h" "\<forall>r\<in>set trs. r < length h"
    using old len by (auto simp: in_set_conv_nth plat_at_def)
  have at: "plat_at n h' p ((prs @ [length h + 1]) ! i) ((trs @ [length h]) ! i) (opened ps t ! i)"
    if i: "i < length (opened ps t)" for i
  proof (cases "i < length ps")
    case True
    have pi: "plat_at n h p (prs ! i) (trs ! i) (ps ! i)" using True by (rule old)
    then have ty: "\<exists>a c d. h ! (prs ! i) = PlatformObj a c d" "trs ! i \<noteq> p"
      by (auto simp: plat_at_def)
    then have d: "p \<noteq> prs ! i" "p \<noteq> trs ! i" using p(3) by auto
    have "plat_at n h2 p (prs ! i) (trs ! i) (ps ! i)"
      unfolding h2_def using pi by (rule plat_at_append)
    then have "plat_at n h' p (prs ! i) (trs ! i) (ps ! i)"
      unfolding h'_def using d p(1) p(2) h2p
      by (intro plat_at_ext_update) (simp_all add: h2_def)
    then show ?thesis using True len by (simp add: nth_append opened_def)
  next
    case False
    with i have i: "i = length ps" by (simp add: opened_def)
    have "map (getAssigned h') [x] = map Some [t]"
      using map_getAssigned_ext [OF e, of "[x]" "[t]"] x by simp
    moreover have "h' ! length h = ArrayObj [x]"
      using p by (simp add: h'_def h2_def nth_append)
    moreover have "h' ! (length h + 1)
        = PlatformObj (length ps + 1) (length h) (effectiveDeparture t)"
      using p len by (simp add: h'_def h2_def nth_append)
    ultimately show ?thesis
      using i len n p lh by (simp add: plat_at_def opened_def nth_append)
  qed
  have "heap_inv n h' p (prs @ [length h + 1]) (trs @ [length h]) (opened ps t)"
    unfolding heap_inv_def using len p dist hp at lh lt
    by (auto simp: opened_def)
  with run e show ?thesis by blast
qed

lemma placeHeap_step:
  assumes "heap_inv n h p prs trs ps" and "getAssigned h x = Some t"
  shows "\<exists>h' prs' trs'. placeHeap w p h x = Some h' \<and>
     heap_inv n h' p prs' trs' (place w ps t) \<and> ext n h h'"
proof (cases w ps t rule: place_cases)
  case (push b)
  with placeHeap_push [OF assms push(1,2)] show ?thesis by auto
next
  case new
  with placeHeap_new [OF assms new(1)] show ?thesis by auto
qed

lemma forEach_placeHeap:
  assumes "heap_inv n h p prs trs ps" and "map (getAssigned h) xs = map Some ts"
  shows "\<exists>h' prs' trs'. forEach (placeHeap w p) xs h = Some h' \<and>
     heap_inv n h' p prs' trs' (foldl (place w) ps ts) \<and> ext n h h'"
  using assms
proof (induction xs arbitrary: h prs trs ps ts)
  case Nil
  then have "n \<le> length h" by (simp add: heap_inv_def)
  with Nil show ?case by (auto intro: ext_refl)
next
  case (Cons x xs)
  then obtain t ts' where ts: "ts = t # ts'" "getAssigned h x = Some t"
    "map (getAssigned h) xs = map Some ts'"
    by (cases ts) auto
  from placeHeap_step [OF Cons.prems(1) ts(2)] obtain h1 prs1 trs1 where
    s: "placeHeap w p h x = Some h1" "heap_inv n h1 p prs1 trs1 (place w ps t)" "ext n h h1"
    by blast
  have "map (getAssigned h1) xs = map Some ts'"
    using s(3) ts(3) by (rule map_getAssigned_ext)
  from Cons.IH [OF s(2) this] obtain h' prs' trs' where
    r: "forEach (placeHeap w p) xs h1 = Some h'"
      "heap_inv n h' p prs' trs' (foldl (place w) (place w ps t) ts')" "ext n h1 h'"
    by blast
  have "ext n h h'" using s(3) r(3) by (rule ext_trans)
  with s(1) r ts(1) show ?case by auto
qed

lemma map_snd_insert_cmp:
  "map snd (insert_cmp (\<lambda>p q. c (snd p) (snd q)) z zs) = insert_cmp c (snd z) (map snd zs)"
  by (induction zs) simp_all

lemma map_snd_array_sort:
  "map snd (array_sort (\<lambda>p q. c (snd p) (snd q)) zs) = array_sort c (map snd zs)"
  by (induction zs) (simp_all add: array_sort_def map_snd_insert_cmp)

lemma set_array_sort: "set (array_sort c zs) = set zs"
  using mset_array_sort [of c zs] by (rule mset_eq_setD)

lemma ext_nth: "ext n h h' \<Longrightarrow> r < n \<Longrightarrow> h' ! r = h ! r"
  by (metis ext_def nth_take)

lemma map_getTrain_ext:
  assumes "ext (length h) h h'" "map (getTrain h) rs = map Some ts"
  shows "map (getTrain h') rs = map Some ts"
proof -
  have "getTrain h' r = Some t" if "getTrain h r = Some t" for r t
    using that assms(1) ext_nth [OF assms(1), of r]
    by (auto simp: getTrain_iff ext_def)
  then show ?thesis
    using assms(2) by (induction rs arbitrary: ts) auto
qed

text \<open>
  Claim C10. The engine does not change its input. On a heap where the caller's reference
  leads to an array of references to vehicles, the function returns; every object that was on
  the heap before the call is the same after it, so the caller's array holds the same
  references in the same order and they lead to the same vehicles with the same fields; and
  the platforms behind the returned reference are those that the functional form of the engine
  computes from the caller's vehicles.
\<close>

theorem assign_leaves_input_unchanged:
  assumes "getArray h r = Some rs" and "those (map (getTrain h) rs) = Some ts"
  shows "\<exists>h' p. assignHeap h r w = Some (h', p) \<and>
     length h \<le> length h' \<and> take (length h) h' = h \<and>
     getArray h' r = Some rs \<and> those (map (getTrain h') rs) = Some ts \<and>
     readPlatforms h' p = Some (assignPlatformsScoreBased ts w)"
proof -
  define n where "n = length h"
  define ats where "ats = map withEffective1 ts"
  define xs where "xs = [n..<n + length ts]"
  define h1 where "h1 = h @ map (\<lambda>t. AssignedObj (withEffective1 t)) ts"
  define h2 where "h2 = h1 @ [ArrayObj xs]"
  define a where "a = length h1"
  define zs where "zs = array_sort (\<lambda>p q. byEffectiveArrival (snd p) (snd q)) (zip xs ats)"
  define h3 where "h3 = h2[a := ArrayObj (map fst zs)]"
  define h4 where "h4 = h3 @ [ArrayObj []]"
  define p where "p = length h3"
  have mg: "map (getTrain h) rs = map Some ts"
    using assms(2) by (simp add: those_eq_Some)
  have s1: "mapWithEffective h rs = Some (h1, xs)"
    unfolding h1_def xs_def n_def using mg by (rule mapWithEffective_eq)
  have lens: "length xs = length ats" "length h1 = n + length ts" "a = n + length ts"
    "length h2 = Suc a" "length h3 = Suc a" "p = Suc a"
    by (simp_all add: xs_def ats_def h1_def n_def a_def h2_def h3_def p_def)
  have as2: "getAssigned h2 (xs ! i) = Some (ats ! i)" if "i < length ts" for i
    using that by (simp add: getAssigned_iff xs_def ats_def h2_def h1_def n_def nth_append)
  have m2: "map (getAssigned h2) xs = map Some ats"
    using as2 lens(1) by (simp add: list_eq_iff_nth_eq ats_def)
  have ga2: "getArray h2 a = Some xs"
    by (simp add: getArray_iff h2_def a_def)
  have s3: "sortHeap h2 a = Some h3"
    by (simp add: sortHeap_def ga2 m2 those_map_Some h3_def zs_def)
  have e01: "ext n h h1" unfolding h1_def by (rule ext_append) (simp add: n_def)
  have e12: "ext n h1 h2" unfolding h2_def by (rule ext_append) (simp add: lens)
  have h2a: "h2 ! a = ArrayObj xs" by (simp add: h2_def a_def)
  have e23: "ext n h2 h3"
    unfolding h3_def using h2a by (intro ext_update) (simp_all add: lens)
  have e34: "ext n h3 h4" unfolding h4_def by (rule ext_append) (simp add: lens)
  have z: "getAssigned h3 (fst z) = Some (snd z)" if "z \<in> set zs" for z
  proof -
    from that have "z \<in> set (zip xs ats)" by (simp add: zs_def set_array_sort)
    then obtain i where "i < length ts" "fst z = xs ! i" "snd z = ats ! i"
      using lens(1) by (auto simp: in_set_zip ats_def)
    then have "getAssigned h2 (fst z) = Some (snd z)" using as2 by simp
    then show ?thesis using e23 by (simp add: ext_def)
  qed
  have "map snd zs = array_sort byEffectiveArrival (map snd (zip xs ats))"
    unfolding zs_def by (rule map_snd_array_sort)
  then have sn: "map snd zs = withEffective ts"
    using lens(1) by (simp add: withEffective_def ats_def)
  have "map (getAssigned h3) (map fst zs) = map Some (map snd zs)"
    using z by simp
  then have m3: "map (getAssigned h3) (map fst zs) = map Some (withEffective ts)"
    by (simp only: sn)
  have m4: "map (getAssigned h4) (map fst zs) = map Some (withEffective ts)"
    using e34 m3 by (rule map_getAssigned_ext)
  have ga4: "getArray h4 a = Some (map fst zs)"
    by (simp add: getArray_iff h4_def h3_def h2_def a_def nth_append)
  have "h4 ! p = ArrayObj []" "p < length h4"
    by (simp_all add: h4_def p_def)
  moreover have "n \<le> p" by (simp add: lens)
  ultimately have inv: "heap_inv n h4 p [] [] []"
    by (simp add: heap_inv_def)
  from forEach_placeHeap [OF inv m4, of w] obtain h5 prs trs where
    l: "forEach (placeHeap w p) (map fst zs) h4 = Some h5"
      "heap_inv n h5 p prs trs (foldl (place w) [] (withEffective ts))" "ext n h4 h5"
    by blast
  have run: "assignHeap h r w = Some (h5, p)"
    using assms(1) s1 s3 ga4 l(1)
    by (simp add: assignHeap_def alloc_def h2_def [symmetric] a_def [symmetric]
        h4_def [symmetric] p_def [symmetric])
  have e: "ext n h h5"
    using e01 e12 e23 e34 l(3) by (blast intro: ext_trans)
  then have fr: "length h \<le> length h5" "take (length h) h5 = h"
    by (simp_all add: ext_def n_def)
  have rn: "r < n" "h ! r = ArrayObj rs"
    using assms(1) by (simp_all add: getArray_iff n_def)
  then have g5: "getArray h5 r = Some rs"
    using ext_nth [OF e, of r] fr(1) by (simp add: getArray_iff n_def)
  have t5: "those (map (getTrain h5) rs) = Some ts"
    using map_getTrain_ext [OF e [unfolded n_def] mg] by (simp add: those_eq_Some)
  have "readPlatforms h5 p = Some (assignPlatformsScoreBased ts w)"
    using readPlatforms_heap_inv [OF l(2)] by (simp add: assignPlatformsScoreBased_def)
  with run fr g5 t5 show ?thesis by blast
qed

theorem assign_leaves_input_unchanged_witness:
  "getArray heapABC 3 = Some [2, 1, 0] \<and>
   those (map (getTrain heapABC) [2, 1, 0]) = Some [vehicleA, vehicleB, vehicleC] \<and>
   (\<exists>h' p. assignHeap heapABC 3 DEFAULT_WEIGHTS = Some (h', p) \<and>
      length heapABC \<le> length h' \<and> take (length heapABC) h' = heapABC \<and>
      getArray h' 3 = Some [2, 1, 0] \<and>
      those (map (getTrain h') [2, 1, 0]) = Some [vehicleA, vehicleB, vehicleC] \<and>
      readPlatforms h' p
        = Some (assignPlatformsScoreBased [vehicleA, vehicleB, vehicleC] DEFAULT_WEIGHTS))"
proof -
  have h1: "getArray heapABC 3 = Some [2, 1, 0]"
    by (simp add: heapABC_def getArray_def getObj_def)
  have h2: "those (map (getTrain heapABC) [2, 1, 0]) = Some [vehicleA, vehicleB, vehicleC]"
    by (simp add: heapABC_def getTrain_def getObj_def)
  show ?thesis
    using h1 h2 assign_leaves_input_unchanged [OF h1 h2, of DEFAULT_WEIGHTS] by blast
qed

subsection \<open>The worked example\<close>

text \<open>
  Claim C4. On the vehicles A (0 to 20), B (10 to 30) and C (25 to 40), all on time with no
  delay, and the default weights, the engine returns exactly two platforms: platform 1 with A
  then C, platform 2 with B.
\<close>

theorem example_three_vehicles:
  "assignPlatformsScoreBased [vehicleA, vehicleB, vehicleC] DEFAULT_WEIGHTS =
     [\<lparr>id_platform = 1,
       trains = [\<lparr>id_train = ''A'', name = ''A'', arrival = 0, departure = 20, delay = 0,
                  status = OnTime, effectiveArrival = 0, effectiveDeparture = 20\<rparr>,
                 \<lparr>id_train = ''C'', name = ''C'', arrival = 25, departure = 40, delay = 0,
                  status = OnTime, effectiveArrival = 25, effectiveDeparture = 40\<rparr>],
       nextFreeAt = 40\<rparr>,
      \<lparr>id_platform = 2,
       trains = [\<lparr>id_train = ''B'', name = ''B'', arrival = 10, departure = 30, delay = 0,
                  status = OnTime, effectiveArrival = 10, effectiveDeparture = 30\<rparr>],
       nextFreeAt = 30\<rparr>]"
  by (simp add: assignPlatformsScoreBased_def withEffective_def array_sort_def
      byEffectiveArrival_def withEffective1_def Train.extend_def vehicleA_def vehicleB_def
      vehicleC_def place_def scan_def scan_step_def score_def less_best_def delayedCountOf_def
      DEFAULT_WEIGHTS_def upt_conv_Cons Let_def)

section \<open>Properties of the engine on double-precision numbers\<close>

subsection \<open>Rounding\<close>

lemma rne_of_int: "rne (of_int z) = z"
  by (simp add: rne_def)

lemma rne_close: "\<bar>of_int (rne r) - r\<bar> \<le> 1 / 2"
  unfolding rne_def Let_def by (auto simp: abs_le_iff; linarith)

lemma floor_log2_bounds:
  assumes "0 < a"
  shows "(2::real) powr of_int \<lfloor>log 2 a\<rfloor> \<le> a" "a < (2::real) powr of_int (\<lfloor>log 2 a\<rfloor> + 1)"
  using floor_log_eq_powr_iff [of a 2 "\<lfloor>log 2 a\<rfloor>"] assms by simp_all

lemma nearest_int:
  assumes "\<bar>m\<bar> < 2 ^ 53"
  shows "nearest (of_int m) = of_int m"
proof (cases "m = 0")
  case True
  then show ?thesis by (simp add: nearest_def)
next
  case False
  define a where "a = \<bar>real_of_int m\<bar>"
  define L where "L = \<lfloor>log 2 a\<rfloor>"
  have a1: "1 \<le> a" using False by (simp add: a_def)
  have a2: "a < 2 ^ 53"
  proof -
    have "real_of_int \<bar>m\<bar> < real_of_int (2 ^ 53)" using assms by (simp only: of_int_less_iff)
    then show ?thesis by (simp add: a_def)
  qed
  have "0 \<le> log 2 a" using a1 by simp
  then have L0: "0 \<le> L" by (simp add: L_def)
  have "log 2 a < 53"
    using a1 a2 by (simp add: log_less_iff)
  then have L52: "L \<le> 52" unfolding L_def by linarith
  define k where "k = nat (52 - L)"
  have E: "ulp_exponent (of_int m) = - int k"
    using L0 L52 by (simp add: ulp_exponent_def a_def [symmetric] L_def [symmetric] k_def)
  have q: "(2::real) powr of_int (- int k) = 1 / 2 ^ k"
    by (simp add: powr_minus powr_realpow divide_inverse)
  have "real_of_int m / (1 / 2 ^ k) = of_int (m * 2 ^ k)" by simp
  then have "rne (real_of_int m / (1 / 2 ^ k)) = m * 2 ^ k"
    by (simp only: rne_of_int)
  moreover have "nearest (real_of_int m)
      = real_of_int (rne (real_of_int m / (1 / 2 ^ k))) * (1 / 2 ^ k)"
    unfolding nearest_def E q using False by (simp only: of_int_eq_0_iff if_False)
  ultimately show ?thesis by simp
qed

lemma nearest_close:
  assumes "(2::real) powr (- 1022) \<le> \<bar>x\<bar>"
  shows "\<bar>nearest x - x\<bar> \<le> \<bar>x\<bar> / 2 ^ 53"
proof -
  define a where "a = \<bar>x\<bar>"
  define L where "L = \<lfloor>log 2 a\<rfloor>"
  have "(0::real) < 2 powr (- 1022)" by simp
  then have a0: "0 < a" using assms unfolding a_def by linarith
  then have x0: "x \<noteq> 0" by (auto simp: a_def)
  have "- 1022 \<le> log 2 a"
    using assms a0 by (simp add: le_log_iff a_def)
  then have L1: "- 1022 \<le> L" unfolding L_def by linarith
  define q :: real where "q = 2 powr of_int (L - 52)"
  have E: "ulp_exponent x = L - 52"
    using L1 by (simp add: ulp_exponent_def a_def [symmetric] L_def [symmetric])
  have q0: "0 < q" by (simp add: q_def)
  have "2 powr of_int L \<le> a" unfolding L_def using a0 by (rule floor_log2_bounds)
  moreover have "q = 2 powr of_int L / 2 ^ 52"
    by (simp add: q_def powr_diff)
  ultimately have qa: "q \<le> a / 2 ^ 52" by (simp add: divide_right_mono)
  have n: "nearest x = of_int (rne (x / q)) * q"
    using x0 by (simp add: nearest_def E q_def)
  have "of_int (rne (x / q)) * q - x = (of_int (rne (x / q)) - x / q) * q"
    using q0 by (simp add: left_diff_distrib)
  then have "\<bar>of_int (rne (x / q)) * q - x\<bar> = \<bar>of_int (rne (x / q)) - x / q\<bar> * \<bar>q\<bar>"
    by (simp only: abs_mult)
  then have "\<bar>of_int (rne (x / q)) * q - x\<bar> = \<bar>of_int (rne (x / q)) - x / q\<bar> * q"
    using q0 by simp
  also have "\<dots> \<le> 1 / 2 * q"
    using rne_close [of "x / q"] q0 by (intro mult_right_mono) simp_all
  also have "\<dots> \<le> a / 2 ^ 53" using qa by simp
  finally show ?thesis by (simp add: n a_def)
qed

lemma rne_le: "\<bar>real_of_int (rne r)\<bar> \<le> 2 * \<bar>r\<bar>"
proof (cases "\<bar>r\<bar> < 1 / 2")
  case True
  then have "rne r = 0"
    unfolding rne_def Let_def by (auto simp: abs_less_iff; linarith)
  then show ?thesis by simp
next
  case False
  then show ?thesis using rne_close [of r] by linarith
qed

lemma nearest_le: "\<bar>nearest x\<bar> \<le> 2 * \<bar>x\<bar>"
proof (cases "x = 0")
  case True
  then show ?thesis by (simp add: nearest_def)
next
  case False
  define q :: real where "q = 2 powr of_int (ulp_exponent x)"
  have q0: "0 < q" by (simp add: q_def)
  have "\<bar>nearest x\<bar> = \<bar>real_of_int (rne (x / q))\<bar> * q"
    using False q0 by (simp add: nearest_def q_def abs_mult)
  also have "\<dots> \<le> 2 * \<bar>x / q\<bar> * q"
    using rne_le [of "x / q"] q0 by (intro mult_right_mono) simp_all
  also have "\<dots> = 2 * \<bar>x\<bar>" using q0 by simp
  finally show ?thesis .
qed

lemma round_double_Fin:
  "\<bar>x\<bar> < 2 ^ 1024 - 2 ^ 970 \<Longrightarrow> round_double x = Fin (nearest x)"
  by (simp add: round_double_def)

lemma round_double_not_NaN: "round_double x \<noteq> NaN"
  by (simp add: round_double_def)

lemma nearest_dyadic:
  assumes "\<bar>m\<bar> < 2 ^ 53"
  shows "nearest (of_int m * 2 ^ j) = of_int m * 2 ^ j"
proof (cases "m = 0")
  case True
  then show ?thesis by (simp add: nearest_def)
next
  case False
  define x where "x = real_of_int m * 2 ^ j"
  define a where "a = \<bar>x\<bar>"
  define L where "L = \<lfloor>log 2 a\<rfloor>"
  have m1: "1 \<le> \<bar>real_of_int m\<bar>" using False by simp
  have m2: "\<bar>real_of_int m\<bar> < 2 ^ 53"
  proof -
    have "real_of_int \<bar>m\<bar> < real_of_int (2 ^ 53)" using assms by (simp only: of_int_less_iff)
    then show ?thesis by simp
  qed
  have a: "a = \<bar>real_of_int m\<bar> * 2 ^ j" by (simp add: a_def x_def abs_mult)
  have a1: "2 ^ j \<le> a" unfolding a using m1 by (simp add: mult_le_cancel_right1)
  have a2: "a < 2 ^ (53 + j)"
    unfolding a power_add using m2 by (simp add: mult_strict_right_mono)
  have a0: "0 < a" using a1 by (rule less_le_trans [rotated]) simp
  have x0: "x \<noteq> 0" using a0 by (auto simp: a_def)
  have "real j \<le> log 2 a"
    using a0 a1 by (simp add: le_log_iff powr_realpow)
  then have Lj: "int j \<le> L" unfolding L_def by linarith
  have "(2::real) powr real (53 + j) = 2 ^ (53 + j)" by (rule powr_realpow) simp
  then have "a < 2 powr real (53 + j)" using a2 by (simp only:)
  then have "log 2 a < real (53 + j)"
    using a0 by (subst log_less_iff) simp_all
  then have L52: "L \<le> 52 + int j" unfolding L_def by linarith
  define k where "k = nat (int j + 52 - L)"
  have E: "ulp_exponent x = L - 52"
    using Lj by (simp add: ulp_exponent_def a_def [symmetric] L_def [symmetric])
  define q :: real where "q = 2 powr of_int (L - 52)"
  have q0: "0 < q" by (simp add: q_def)
  have "2 powr real j = q * 2 powr real k"
  proof -
    have "real_of_int (L - 52) + real k = real j"
      using Lj L52 by (simp add: k_def)
    then have "2 powr real j = 2 powr (real_of_int (L - 52) + real k)" by simp
    then show ?thesis unfolding q_def by (simp only: powr_add)
  qed
  then have jq: "2 ^ j = q * 2 ^ k" by (simp add: powr_realpow)
  have "x / q = of_int (m * 2 ^ k)"
    using q0 by (simp add: x_def jq)
  then have "rne (x / q) = m * 2 ^ k" by (simp only: rne_of_int)
  moreover have "nearest x = real_of_int (rne (x / q)) * q"
    unfolding nearest_def E q_def using x0 by (simp only: if_False)
  ultimately have "nearest x = real_of_int m * (q * 2 ^ k)" by simp
  then show ?thesis unfolding jq [symmetric] x_def .
qed

lemma round_double_int:
  assumes "\<bar>m\<bar> < 2 ^ 53"
  shows "round_double (of_int m) = Fin (of_int m)"
proof -
  have "real_of_int \<bar>m\<bar> < real_of_int (2 ^ 53)" using assms by (simp only: of_int_less_iff)
  then have "\<bar>real_of_int m\<bar> < 2 ^ 1024 - 2 ^ 970" by simp
  then have "round_double (of_int m) = Fin (nearest (of_int m))" by (rule round_double_Fin)
  then show ?thesis using nearest_dyadic [OF assms, of 0] by simp
qed

lemma round_double_0 [simp]: "round_double 0 = Fin 0"
  using round_double_int [of 0] by simp

lemma round_double_1 [simp]: "round_double 1 = Fin 1"
  using round_double_int [of 1] by simp

lemma round_double_numeral [simp]:
  "(numeral k :: int) < 2 ^ 53 \<Longrightarrow> round_double (numeral k) = Fin (numeral k)"
  using round_double_int [of "numeral k"] by simp

lemma round_double_neg_numeral [simp]:
  "(numeral k :: int) < 2 ^ 53 \<Longrightarrow> round_double (- numeral k) = Fin (- numeral k)"
  using round_double_int [of "- numeral k"] by simp

lemma round_double_pow53: "round_double (2 ^ 53) = Fin (2 ^ 53)"
proof -
  have "round_double (2 ^ 53) = Fin (nearest (2 ^ 53))" by (rule round_double_Fin) simp
  then show ?thesis using nearest_dyadic [of 1 53] by simp
qed

lemma nearest_tie_pow53: "nearest (2 ^ 53 + 1) = 2 ^ 53"
proof -
  define x :: real where "x = 2 ^ 53 + 1"
  have "\<lfloor>log 2 x\<rfloor> = 53"
    unfolding x_def by (subst floor_log_eq_powr_iff) simp_all
  moreover have "\<bar>x\<bar> = x" by (simp add: x_def)
  ultimately have E: "ulp_exponent x = 1"
    by (simp add: ulp_exponent_def)
  have r: "rne (x / 2) = 2 ^ 52"
    by (simp add: rne_def Let_def x_def)
  have "x \<noteq> 0" by (simp add: x_def)
  then have "nearest x = real_of_int (rne (x / 2 powr of_int 1)) * 2 powr of_int 1"
    unfolding nearest_def E by (simp only: if_False)
  then have "nearest x = 2 ^ 53" by (simp add: r)
  then show ?thesis by (simp only: x_def)
qed

lemma round_double_tie_pow53: "round_double (2 ^ 53 + 1) = Fin (2 ^ 53)"
proof -
  have "round_double (2 ^ 53 + 1) = Fin (nearest (2 ^ 53 + 1))" by (rule round_double_Fin) simp
  then show ?thesis by (simp only: nearest_tie_pow53)
qed

lemma add_num_int:
  "\<bar>a + b\<bar> < 2 ^ 53 \<Longrightarrow> add_num (Fin (of_int a)) (Fin (of_int b)) = Fin (of_int (a + b))"
  using round_double_int [of "a + b"] by simp

lemma sub_num_int:
  "\<bar>a - b\<bar> < 2 ^ 53 \<Longrightarrow> sub_num (Fin (of_int a)) (Fin (of_int b)) = Fin (of_int (a - b))"
  using round_double_int [of "a - b"] by (simp add: sub_num_def)

lemma round_double_close:
  assumes "(2::real) powr (- 1022) \<le> \<bar>x\<bar>" "\<bar>x\<bar> < 2 ^ 1024 - 2 ^ 970"
  shows "\<exists>y. round_double x = Fin y \<and> \<bar>y - x\<bar> \<le> \<bar>x\<bar> / 2 ^ 53"
  using round_double_Fin [OF assms(2)] nearest_close [OF assms(1)] by simp

lemma tiny: "(2::real) powr (- 1022) \<le> 1"
  by (simp add: powr_minus powr_numeral inverse_le_1_iff)

lemma close_small:
  fixes x y :: real
  assumes "\<bar>y - x\<bar> \<le> \<bar>x\<bar> / 2 ^ 53" "\<bar>x\<bar> \<le> 1000"
  shows "\<bar>y - x\<bar> \<le> 1 / 100000"
proof -
  have "\<bar>x\<bar> / 2 ^ 53 \<le> 1000 / 2 ^ 53" using assms(2) by (intro divide_right_mono) simp_all
  also have "\<dots> \<le> (1 / 100000 :: real)" by simp
  finally show ?thesis using assms(1) by linarith
qed

lemma round_double_bound:
  assumes "\<bar>x\<bar> \<le> B" "2 * B < 2 ^ 1024 - 2 ^ 970"
  shows "bounded (round_double x) (2 * B)"
proof -
  have "\<bar>x\<bar> < 2 ^ 1024 - 2 ^ 970" using assms by linarith
  then have "round_double x = Fin (nearest x)" by (rule round_double_Fin)
  moreover have "\<bar>nearest x\<bar> \<le> 2 * B" using nearest_le [of x] assms(1) by linarith
  ultimately show ?thesis by (simp add: bounded_def)
qed

subsection \<open>Effective interval\<close>

text \<open>
  Claim C6 as stated fails in the arithmetic of the run-time system. With a delay that is NaN
  both effective times are NaN and so is their difference, while the scheduled dwell is 20;
  with a delay of \<open>2\<^sup>5\<^sup>3\<close> (a value of the run-time system) and the scheduled interval from 0 to 1 the sum \<open>2\<^sup>5\<^sup>3 + 1\<close> is rounded
  to \<open>2\<^sup>5\<^sup>3\<close>, so the effective dwell is 0 and the scheduled one is 1.
\<close>

theorem dwell_not_preserved_counterexample:
  "round_double (2 ^ 53) = Fin (2 ^ 53) \<and>
   sub_num (effectiveDepartureD (withEffective1D vehicleNaN))
       (effectiveArrivalD (withEffective1D vehicleNaN)) = NaN \<and>
   sub_num (departureD vehicleNaN) (arrivalD vehicleNaN) = Fin 20 \<and>
   sub_num (effectiveDepartureD (withEffective1D vehicleNaN))
       (effectiveArrivalD (withEffective1D vehicleNaN))
     \<noteq> sub_num (departureD vehicleNaN) (arrivalD vehicleNaN) \<and>
   sub_num (effectiveDepartureD (withEffective1D vehicleBig))
       (effectiveArrivalD (withEffective1D vehicleBig)) = Fin 0 \<and>
   sub_num (departureD vehicleBig) (arrivalD vehicleBig) = Fin 1 \<and>
   sub_num (effectiveDepartureD (withEffective1D vehicleBig))
       (effectiveArrivalD (withEffective1D vehicleBig))
     \<noteq> sub_num (departureD vehicleBig) (arrivalD vehicleBig)"
proof -
  have n: "effectiveArrivalD (withEffective1D vehicleNaN) = NaN"
    "effectiveDepartureD (withEffective1D vehicleNaN) = NaN"
    by (simp_all add: withEffective1D_def TrainD.extend_def vehicleNaN_def)
  have n2: "sub_num (departureD vehicleNaN) (arrivalD vehicleNaN) = Fin 20"
    by (simp add: vehicleNaN_def sub_num_def)
  have "effectiveArrivalD (withEffective1D vehicleBig) = round_double (2 ^ 53)"
    by (simp add: withEffective1D_def TrainD.extend_def vehicleBig_def)
  then have b1: "effectiveArrivalD (withEffective1D vehicleBig) = Fin (2 ^ 53)"
    by (simp only: round_double_pow53)
  have "effectiveDepartureD (withEffective1D vehicleBig) = round_double (2 ^ 53 + 1)"
    by (simp add: withEffective1D_def TrainD.extend_def vehicleBig_def add.commute)
  then have b2: "effectiveDepartureD (withEffective1D vehicleBig) = Fin (2 ^ 53)"
    by (simp only: round_double_tie_pow53)
  have b3: "sub_num (Fin (2 ^ 53)) (Fin (2 ^ 53)) = Fin 0"
    by (simp add: sub_num_def)
  have b4: "sub_num (departureD vehicleBig) (arrivalD vehicleBig) = Fin 1"
    by (simp add: vehicleBig_def sub_num_def)
  show ?thesis
    unfolding n n2 b1 b2 b3 b4 using round_double_pow53 by (simp add: sub_num_def)
qed

text \<open>
  Claim C6, amended. The effective arrival and departure are the sums, in the arithmetic of
  the run-time system, of the scheduled time and the delay, and the other fields are those of
  the vehicle. When arrival, departure and delay are whole numbers of magnitude below \<open>2\<^sup>5\<^sup>1\<close>
  the sums are exact and the dwell duration is preserved: effectiveDeparture -
  effectiveArrival = departure - arrival.
\<close>

theorem effective_interval_runtime:
  "effectiveArrivalD (withEffective1D t) = add_num (arrivalD t) (delayD t) \<and>
   effectiveDepartureD (withEffective1D t) = add_num (departureD t) (delayD t) \<and>
   TrainD.truncate (withEffective1D t) = t \<and>
   (\<forall>a d k. arrivalD t = Fin (of_int a) \<and> departureD t = Fin (of_int d) \<and>
       delayD t = Fin (of_int k) \<and> \<bar>a\<bar> < 2 ^ 51 \<and> \<bar>d\<bar> < 2 ^ 51 \<and> \<bar>k\<bar> < 2 ^ 51 \<longrightarrow>
      sub_num (effectiveDepartureD (withEffective1D t)) (effectiveArrivalD (withEffective1D t))
        = sub_num (departureD t) (arrivalD t) \<and>
      sub_num (departureD t) (arrivalD t) = Fin (of_int (d - a)))"
proof -
  have e: "effectiveArrivalD (withEffective1D t) = add_num (arrivalD t) (delayD t)"
    "effectiveDepartureD (withEffective1D t) = add_num (departureD t) (delayD t)"
    "TrainD.truncate (withEffective1D t) = t"
    by (simp_all add: withEffective1D_def TrainD.extend_def TrainD.truncate_def)
  have x: "sub_num (add_num (departureD t) (delayD t)) (add_num (arrivalD t) (delayD t))
        = sub_num (departureD t) (arrivalD t) \<and>
      sub_num (departureD t) (arrivalD t) = Fin (of_int (d - a))"
    if h: "arrivalD t = Fin (of_int a)" "departureD t = Fin (of_int d)"
      "delayD t = Fin (of_int k)" "\<bar>a\<bar> < 2 ^ 51" "\<bar>d\<bar> < 2 ^ 51" "\<bar>k\<bar> < 2 ^ 51" for a d k
  proof -
    have b: "\<bar>a + k\<bar> < 2 ^ 53" "\<bar>d + k\<bar> < 2 ^ 53" "\<bar>(d + k) - (a + k)\<bar> < 2 ^ 53"
      "\<bar>d - a\<bar> < 2 ^ 53"
      using h(4,5,6) by simp_all
    have 1: "add_num (Fin (of_int a)) (Fin (of_int k)) = Fin (of_int (a + k))"
      using b(1) by (rule add_num_int)
    have 2: "add_num (Fin (of_int d)) (Fin (of_int k)) = Fin (of_int (d + k))"
      using b(2) by (rule add_num_int)
    have 3: "sub_num (Fin (of_int (d + k))) (Fin (of_int (a + k))) = Fin (of_int ((d + k) - (a + k)))"
      using b(3) by (rule sub_num_int)
    have 4: "sub_num (Fin (of_int d)) (Fin (of_int a)) = Fin (of_int (d - a))"
      using b(4) by (rule sub_num_int)
    show ?thesis unfolding h(1,2,3) 1 2 3 4 by simp
  qed
  show ?thesis unfolding e using x by blast
qed

theorem effective_interval_runtime_witness:
  "arrivalD vehicleAD = Fin (of_int 0) \<and> departureD vehicleAD = Fin (of_int 20) \<and>
   delayD vehicleAD = Fin (of_int 0) \<and> \<bar>0 :: int\<bar> < 2 ^ 51 \<and> \<bar>20 :: int\<bar> < 2 ^ 51 \<and>
   sub_num (effectiveDepartureD (withEffective1D vehicleAD))
       (effectiveArrivalD (withEffective1D vehicleAD))
     = sub_num (departureD vehicleAD) (arrivalD vehicleAD) \<and>
   sub_num (departureD vehicleAD) (arrivalD vehicleAD) = Fin (of_int (20 - 0))"
proof -
  have h: "arrivalD vehicleAD = Fin (of_int 0) \<and> departureD vehicleAD = Fin (of_int 20) \<and>
       delayD vehicleAD = Fin (of_int 0) \<and> \<bar>0 :: int\<bar> < 2 ^ 51 \<and> \<bar>20 :: int\<bar> < 2 ^ 51 \<and>
       \<bar>0 :: int\<bar> < 2 ^ 51"
    by (simp add: vehicleAD_def)
  show ?thesis
    using h effective_interval_runtime [of vehicleAD] by blast
qed

subsection \<open>Order of numbers and the scan\<close>

lemma lt_num_PInf: "lt_num a PInf \<longleftrightarrow> a \<noteq> PInf \<and> a \<noteq> NaN"
  by (cases a) simp_all

lemma lt_num_not_NaN: "lt_num a b \<Longrightarrow> a \<noteq> NaN \<and> b \<noteq> NaN"
  by (cases a; cases b) simp_all

lemma lt_num_trans: "lt_num a b \<Longrightarrow> lt_num b c \<Longrightarrow> lt_num a c"
  by (cases a; cases b; cases c) simp_all

lemma lt_num_irrefl: "\<not> lt_num a a"
  by (cases a) simp_all

lemma lt_le_num_trans: "lt_num a b \<Longrightarrow> le_num b c \<Longrightarrow> lt_num a c"
  by (auto simp: le_num_def intro: lt_num_trans)

lemma not_lt_num: "\<not> lt_num a b \<Longrightarrow> a \<noteq> NaN \<Longrightarrow> b \<noteq> NaN \<Longrightarrow> le_num b a"
  by (cases a; cases b) (auto simp: le_num_def)

lemma le_num_antisym: "le_num a b \<Longrightarrow> le_num b a \<Longrightarrow> a = b"
  by (cases a; cases b) (auto simp: le_num_def)

lemma le_num_refl: "a \<noteq> NaN \<Longrightarrow> le_num a a"
  by (simp add: le_num_def)

lemma eligible_not_NaN: "eligible w ps t j \<Longrightarrow> scoreD w (ps ! j) t \<noteq> NaN"
  by (auto simp: eligible_def dest: lt_num_not_NaN)

lemma scan_okD_step:
  assumes "scan_okD w ps t n r"
  shows "scan_okD w ps t (Suc n) (scan_stepD w ps t r n)"
proof (cases "le_num (nextFreeAtD (ps ! n)) (effectiveArrivalD t)")
  case False
  then have "scan_stepD w ps t r n = r" "\<not> eligible w ps t n"
    by (simp_all add: scan_stepD_def eligible_def)
  with assms show ?thesis
    unfolding scan_okD_def by (auto simp: less_Suc_eq)
next
  case feas: True
  let ?sc = "scoreD w (ps ! n) t"
  from assms consider
    (none) "fst r = - 1" "snd r = PInf" "\<forall>j<n. \<not> eligible w ps t j"
  | (some) b where "b < n" "fst r = int b" "snd r = scoreD w (ps ! b) t" "eligible w ps t b"
      "\<forall>j<n. eligible w ps t j \<longrightarrow> le_num (scoreD w (ps ! b) t) (scoreD w (ps ! j) t)"
      "\<forall>j<b. eligible w ps t j \<longrightarrow> lt_num (scoreD w (ps ! b) t) (scoreD w (ps ! j) t)"
    unfolding scan_okD_def by (elim disjE exE conjE) simp_all
  then show ?thesis
  proof cases
    case none
    show ?thesis
    proof (cases "lt_num ?sc PInf")
      case True
      then have "scan_stepD w ps t r n = (int n, ?sc)" "eligible w ps t n"
        using feas none by (simp_all add: scan_stepD_def eligible_def)
      moreover have "le_num ?sc ?sc" using True by (intro le_num_refl) (auto dest: lt_num_not_NaN)
      ultimately show ?thesis
        unfolding scan_okD_def using none by (auto simp: less_Suc_eq)
    next
      case False
      then have "scan_stepD w ps t r n = r" "\<not> eligible w ps t n"
        using feas none by (simp_all add: scan_stepD_def eligible_def)
      with none show ?thesis
        unfolding scan_okD_def by (auto simp: less_Suc_eq)
    qed
  next
    case some
    let ?sb = "scoreD w (ps ! b) t"
    have sbP: "lt_num ?sb PInf" using some(4) by (simp add: eligible_def)
    show ?thesis
    proof (cases "lt_num ?sc ?sb")
      case True
      then have st: "scan_stepD w ps t r n = (int n, ?sc)"
        using feas some by (simp add: scan_stepD_def)
      have el: "eligible w ps t n"
        using feas lt_num_trans [OF True sbP] by (simp add: eligible_def)
      have lo: "\<forall>j<n. eligible w ps t j \<longrightarrow> lt_num ?sc (scoreD w (ps ! j) t)"
        using some(5) True by (auto intro: lt_le_num_trans)
      have "le_num ?sc ?sc" using el by (intro le_num_refl) (rule eligible_not_NaN)
      then have "\<forall>j<Suc n. eligible w ps t j \<longrightarrow> le_num ?sc (scoreD w (ps ! j) t)"
        using lo by (auto simp: less_Suc_eq le_num_def)
      with st el lo show ?thesis
        unfolding scan_okD_def by auto
    next
      case False
      then have st: "scan_stepD w ps t r n = r"
        using feas some by (simp add: scan_stepD_def)
      have "le_num ?sb ?sc" if "eligible w ps t n"
        using False eligible_not_NaN [OF that] eligible_not_NaN [OF some(4)]
        by (intro not_lt_num)
      then have "\<forall>j<Suc n. eligible w ps t j \<longrightarrow> le_num ?sb (scoreD w (ps ! j) t)"
        using some(5) by (auto simp: less_Suc_eq)
      with st some show ?thesis
        unfolding scan_okD_def by (auto simp: less_Suc_eq)
    qed
  qed
qed

lemma scan_okD_prefix:
  "scan_okD w ps t n (foldl (scan_stepD w ps t) (- 1, PInf) [0..<n])"
proof (induction n)
  case 0
  show ?case by (simp add: scan_okD_def)
next
  case (Suc n)
  then show ?case using scan_okD_step by simp
qed

lemma scan_okD_scan: "scan_okD w ps t (length ps) (scanD w ps t)"
  unfolding scanD_def by (rule scan_okD_prefix)

lemma placeD_cases:
  obtains (push) b where "b < length ps" "fst (scanD w ps t) = int b" "eligible w ps t b"
      "\<forall>j<length ps. eligible w ps t j
         \<longrightarrow> le_num (scoreD w (ps ! b) t) (scoreD w (ps ! j) t)"
      "\<forall>j<b. eligible w ps t j \<longrightarrow> lt_num (scoreD w (ps ! b) t) (scoreD w (ps ! j) t)"
      "placeD w ps t = pushedD ps b t"
  | (new) "fst (scanD w ps t) = - 1" "\<forall>j<length ps. \<not> eligible w ps t j"
      "placeD w ps t = openedD ps t"
proof -
  have "scan_okD w ps t (length ps) (scanD w ps t)" by (rule scan_okD_scan)
  then consider
    (a) "fst (scanD w ps t) = - 1" "\<forall>j<length ps. \<not> eligible w ps t j"
  | (b) b where "b < length ps" "fst (scanD w ps t) = int b" "eligible w ps t b"
      "\<forall>j<length ps. eligible w ps t j
         \<longrightarrow> le_num (scoreD w (ps ! b) t) (scoreD w (ps ! j) t)"
      "\<forall>j<b. eligible w ps t j \<longrightarrow> lt_num (scoreD w (ps ! b) t) (scoreD w (ps ! j) t)"
    unfolding scan_okD_def by (elim disjE exE conjE) simp_all
  then show thesis
  proof cases
    case a
    then have "placeD w ps t = openedD ps t"
      by (simp add: placeD_def openedD_def)
    with a show thesis by (rule new)
  next
    case b
    then have "placeD w ps t = pushedD ps b t"
      by (simp add: placeD_def pushedD_def Let_def)
    with b show thesis by (intro push)
  qed
qed

lemma numberedD_place: "numberedD ps \<Longrightarrow> numberedD (placeD w ps t)"
proof (cases w ps t rule: placeD_cases)
  case (push b)
  assume n: "numberedD ps"
  have "id_platformD (pushedD ps b t ! i) = i + 1" if "i < length ps" for i
    using that n by (cases "i = b") (simp_all add: numberedD_def pushedD_def)
  then show ?thesis
    unfolding push(6) by (simp add: numberedD_def pushedD_def)
next
  case new
  assume "numberedD ps"
  then show ?thesis
    unfolding new(3) by (auto simp: numberedD_def openedD_def nth_append less_Suc_eq)
qed

lemma numberedD_foldl: "numberedD ps \<Longrightarrow> numberedD (foldl (placeD w) ps xs)"
  by (induction xs arbitrary: ps) (simp_all add: numberedD_place)

lemma numberedD_after_placing: "numberedD (after_placingD ts w k)"
  unfolding after_placingD_def by (rule numberedD_foldl) (simp add: numberedD_def)




lemma scanD_first_minimum:
  assumes "i < length ps" "eligible w ps t i"
    and "\<forall>j<length ps. eligible w ps t j
           \<longrightarrow> le_num (scoreD w (ps ! i) t) (scoreD w (ps ! j) t)"
    and "\<forall>j<i. eligible w ps t j \<longrightarrow> scoreD w (ps ! j) t \<noteq> scoreD w (ps ! i) t"
  shows "fst (scanD w ps t) = int i \<and> placeD w ps t = pushedD ps i t"
proof (cases w ps t rule: placeD_cases)
  case new
  with assms(1,2) show ?thesis by simp
next
  case (push b)
  have "le_num (scoreD w (ps ! b) t) (scoreD w (ps ! i) t)"
    using push(4) assms(1,2) by simp
  moreover have "le_num (scoreD w (ps ! i) t) (scoreD w (ps ! b) t)"
    using assms(3) push(1,3) by simp
  ultimately have eq: "scoreD w (ps ! b) t = scoreD w (ps ! i) t"
    by (rule le_num_antisym)
  have "\<not> i < b" using push(5) assms(2) eq by (auto simp: lt_num_irrefl)
  moreover have "\<not> b < i" using assms(4) push(3) eq by auto
  ultimately have "b = i" by simp
  with push show ?thesis by simp
qed

subsection \<open>Finite scores\<close>

lemma bounded_add:
  assumes "bounded u A" "bounded v B" "2 * (A + B) < 2 ^ 1024 - 2 ^ 970"
  shows "bounded (add_num u v) (2 * (A + B))"
proof -
  from assms(1,2) obtain x y where "u = Fin x" "\<bar>x\<bar> \<le> A" "v = Fin y" "\<bar>y\<bar> \<le> B"
    by (auto simp: bounded_def)
  moreover from this have "\<bar>x + y\<bar> \<le> A + B" by linarith
  ultimately show ?thesis using round_double_bound [OF _ assms(3)] by simp
qed

lemma bounded_mul:
  assumes "bounded u A" "bounded v B" "2 * (A * B) < 2 ^ 1024 - 2 ^ 970"
  shows "bounded (mul_num u v) (2 * (A * B))"
proof -
  from assms(1,2) obtain x y where "u = Fin x" "\<bar>x\<bar> \<le> A" "v = Fin y" "\<bar>y\<bar> \<le> B"
    by (auto simp: bounded_def)
  moreover from this have "\<bar>x * y\<bar> \<le> A * B"
    unfolding abs_mult by (intro mult_mono) simp_all
  ultimately show ?thesis using round_double_bound [OF _ assms(3)] by simp
qed

lemma bounded_gap:
  assumes "bounded u A" "bounded v A" "2 * (A + A) < 2 ^ 1024 - 2 ^ 970"
  shows "bounded (max_num (Fin 0) (sub_num u v)) (2 * (A + A))"
proof -
  from assms(2) have "bounded (neg_num v) A" by (auto simp: bounded_def)
  with assms(1) have "bounded (sub_num u v) (2 * (A + A))"
    unfolding sub_num_def using assms(3) by (rule bounded_add)
  then show ?thesis by (auto simp: bounded_def max_num_def)
qed

lemma delayedCountOfD_le: "delayedCountOfD ts \<le> length ts"
proof -
  have "foldl (\<lambda>acc t. acc + (if statusD t = Delayed then 1 else 0)) a ts \<le> a + length ts"
    for a :: nat
  proof (induction ts arbitrary: a)
    case Nil
    show ?case by simp
  next
    case (Cons x xs)
    show ?case using Cons [of "a + (if statusD x = Delayed then 1 else 0)"]
      by (cases "statusD x = Delayed") (simp_all add: le_Suc_eq)
  qed
  from this [of 0] show ?thesis by (simp add: delayedCountOfD_def)
qed

lemma scoreD_finite:
  assumes w: "bounded (idleGapD w) (2 ^ 100)" "bounded (loadD w) (2 ^ 100)"
      "bounded (delayedSpreadD w) (2 ^ 100)"
    and t: "bounded (effectiveArrivalD t) (2 ^ 100)" "bounded (nextFreeAtD pl) (2 ^ 100)"
    and n: "length (trainsD pl) \<le> 2 ^ 100"
  shows "lt_num (scoreD w pl t) PInf"
proof -
  have g: "bounded (max_num (Fin 0) (sub_num (effectiveArrivalD t) (nextFreeAtD pl)))
      (2 * (2 ^ 100 + 2 ^ 100))"
    using t by (rule bounded_gap) simp
  have l: "bounded (Fin (real (length (trainsD pl)))) (2 ^ 100)"
  proof -
    have "real (length (trainsD pl)) \<le> real ((2::nat) ^ 100)" using n by (simp only: of_nat_le_iff)
    then show ?thesis by (simp add: bounded_def)
  qed
  have d: "bounded (Fin (real (delayedCountOfD (trainsD pl)))) (2 ^ 100)"
  proof -
    have "delayedCountOfD (trainsD pl) \<le> (2::nat) ^ 100"
      using delayedCountOfD_le [of "trainsD pl"] n by (rule le_trans)
    then have "real (delayedCountOfD (trainsD pl)) \<le> real ((2::nat) ^ 100)"
      by (simp only: of_nat_le_iff)
    then show ?thesis by (simp add: bounded_def)
  qed
  have m1: "bounded (mul_num (idleGapD w)
        (max_num (Fin 0) (sub_num (effectiveArrivalD t) (nextFreeAtD pl))))
      (2 * (2 ^ 100 * (2 * (2 ^ 100 + 2 ^ 100))))"
    using w(1) g by (rule bounded_mul) simp
  have m2: "bounded (mul_num (loadD w) (Fin (real (length (trainsD pl)))))
      (2 * (2 ^ 100 * 2 ^ 100))"
    using w(2) l by (rule bounded_mul) simp
  have m3: "bounded (mul_num (delayedSpreadD w) (Fin (real (delayedCountOfD (trainsD pl)))))
      (2 * (2 ^ 100 * 2 ^ 100))"
    using w(3) d by (rule bounded_mul) simp
  have a1: "bounded (add_num
        (mul_num (idleGapD w) (max_num (Fin 0) (sub_num (effectiveArrivalD t) (nextFreeAtD pl))))
        (mul_num (loadD w) (Fin (real (length (trainsD pl))))))
      (2 * (2 * (2 ^ 100 * (2 * (2 ^ 100 + 2 ^ 100))) + 2 * (2 ^ 100 * 2 ^ 100)))"
    using m1 m2 by (rule bounded_add) simp
  have "bounded (scoreD w pl t)
      (2 * (2 * (2 * (2 ^ 100 * (2 * (2 ^ 100 + 2 ^ 100))) + 2 * (2 ^ 100 * 2 ^ 100))
         + 2 * (2 ^ 100 * 2 ^ 100)))"
    unfolding scoreD_def Let_def using a1 m3 by (rule bounded_add) simp
  then show ?thesis by (auto simp: bounded_def)
qed

lemma default_weights_bounded:
  "bounded (idleGapD DEFAULT_WEIGHTS_D) (2 ^ 100)"
  "bounded (loadD DEFAULT_WEIGHTS_D) (2 ^ 100)"
  "bounded (delayedSpreadD DEFAULT_WEIGHTS_D) (2 ^ 100)"
proof -
  have b: "bounded (round_double x) (2 ^ 100)" if "\<bar>x\<bar> \<le> 1" for x
  proof -
    have "bounded (round_double x) (2 * 1)" using that by (rule round_double_bound) simp
    then show ?thesis by (auto simp: bounded_def)
  qed
  have "bounded (round_double 1.0) (2 ^ 100)" "bounded (round_double 0.3) (2 ^ 100)"
    "bounded (round_double 0.5) (2 ^ 100)"
    by (rule b, simp)+
  then show "bounded (idleGapD DEFAULT_WEIGHTS_D) (2 ^ 100)"
    "bounded (loadD DEFAULT_WEIGHTS_D) (2 ^ 100)"
    "bounded (delayedSpreadD DEFAULT_WEIGHTS_D) (2 ^ 100)"
    unfolding DEFAULT_WEIGHTS_D_def by (simp_all only: ScoringWeightsD.simps)
qed



subsection \<open>Evaluation on the example vehicles, double-precision numbers\<close>

lemmas engineD_defs =
  assignPlatformsScoreBasedD_def withEffectiveD_def array_sort_def byEffectiveArrivalD_def
  withEffective1D_def TrainD.extend_def placeD_def scanD_def scan_stepD_def sub_num_def
  le_num_def max_num_def upt_conv_Cons Let_def



lemma placeD_single:
  assumes "le_num (nextFreeAtD p) (effectiveArrivalD t)" "lt_num (scoreD w p t) PInf"
  shows "placeD w [p] t = [p\<lparr>trainsD := trainsD p @ [t], nextFreeAtD := effectiveDepartureD t\<rparr>]"
proof -
  have e: "eligible w [p] t 0" using assms by (simp add: eligible_def)
  then have "le_num (scoreD w p t) (scoreD w p t)"
    using eligible_not_NaN [OF e] by (simp add: le_num_refl)
  then have "fst (scanD w [p] t) = int 0 \<and> placeD w [p] t = pushedD [p] 0 t"
    using e by (intro scanD_first_minimum) simp_all
  then show ?thesis by (simp add: pushedD_def)
qed

lemma withEffectiveD_FGH:
  "withEffectiveD [vehicleFD, vehicleGD, vehicleHD]
     = [withEffective1D vehicleFD, withEffective1D vehicleGD, withEffective1D vehicleHD]"
  by (simp add: engineD_defs vehicleFD_def vehicleGD_def vehicleHD_def)

lemma times_FGH:
  "effectiveArrivalD (withEffective1D vehicleFD) = Fin 6"
  "effectiveDepartureD (withEffective1D vehicleFD) = Fin 16"
  "effectiveArrivalD (withEffective1D vehicleGD) = Fin 20"
  "effectiveDepartureD (withEffective1D vehicleGD) = Fin 30"
  "effectiveArrivalD (withEffective1D vehicleHD) = Fin 40"
  "effectiveDepartureD (withEffective1D vehicleHD) = Fin 50"
  by (simp_all add: withEffective1D_def TrainD.extend_def vehicleFD_def vehicleGD_def
      vehicleHD_def)

lemma assignD_FGH:
  "assignPlatformsScoreBasedD [vehicleFD, vehicleGD, vehicleHD] DEFAULT_WEIGHTS_D = [platformFGH]"
proof -
  let ?F = "withEffective1D vehicleFD" and ?G = "withEffective1D vehicleGD"
    and ?H = "withEffective1D vehicleHD"
  let ?w = DEFAULT_WEIGHTS_D
  let ?p1 = "\<lparr>id_platformD = 1, trainsD = [?F], nextFreeAtD = Fin 16\<rparr>"
  let ?p2 = "\<lparr>id_platformD = 1, trainsD = [?F, ?G], nextFreeAtD = Fin 30\<rparr>"
  have 1: "placeD ?w [] ?F = [?p1]"
    by (simp add: placeD_def scanD_def times_FGH)
  have "lt_num (scoreD ?w ?p1 ?G) PInf"
    by (rule scoreD_finite [OF default_weights_bounded]) (simp_all add: times_FGH bounded_def)
  then have 2: "placeD ?w [?p1] ?G = [?p2]"
    by (subst placeD_single) (simp_all add: times_FGH le_num_def)
  have "lt_num (scoreD ?w ?p2 ?H) PInf"
    by (rule scoreD_finite [OF default_weights_bounded]) (simp_all add: times_FGH bounded_def)
  then have 3: "placeD ?w [?p2] ?H = [platformFGH]"
    by (subst placeD_single) (simp_all add: times_FGH le_num_def platformFGH_def)
  show ?thesis
    unfolding assignPlatformsScoreBasedD_def withEffectiveD_FGH by (simp only: foldl.simps 1 2 3)
qed

lemma endMetric_FGH: "endMetricD (metricsOfD platformFGH) = round_double (7 / 3)"
  by (simp add: metricsOfD_def platformFGH_def withEffective1D_def TrainD.extend_def
      vehicleFD_def vehicleGD_def vehicleHD_def)

lemma reach_FGH:
  "\<exists>x u. abs_num (sub_num (endMetricD (metricsOfD platformFGH)) (Fin 0)) = Fin x \<and>
     2333 / 1000 \<le> x \<and> x \<le> 2334 / 1000 \<and>
     numberOf (toFixed2D (Fin x)) = Fin u \<and> u \<le> 2331 / 1000"
proof -
  obtain v where v: "round_double (7 / 3) = Fin v" "\<bar>v - 7 / 3\<bar> \<le> \<bar>7 / 3\<bar> / 2 ^ 53"
    using round_double_close [of "7 / 3"] tiny by auto
  have "\<bar>v - 7 / 3\<bar> \<le> 1 / 100000" using v(2) by (rule close_small) simp
  then have vb: "23332 / 10000 \<le> v" "v \<le> 23334 / 10000" by linarith+
  obtain x where x: "round_double v = Fin x" "\<bar>x - v\<bar> \<le> \<bar>v\<bar> / 2 ^ 53"
    using round_double_close [of v] tiny vb by auto
  have "\<bar>x - v\<bar> \<le> 1 / 100000" using x(2) vb by (intro close_small) simp_all
  then have xb: "2333 / 1000 \<le> x" "x \<le> 2334 / 1000" using vb by linarith+
  have a: "abs_num (sub_num (endMetricD (metricsOfD platformFGH)) (Fin 0)) = Fin x"
    using xb by (simp add: endMetric_FGH v(1) sub_num_def x(1))
  have "\<lfloor>x * 100 + 1 / 2\<rfloor> = 233" using xb by (simp add: floor_eq_iff)
  then have f: "toFixed2D (Fin x) = Hundredths 233" using xb by (simp add: toFixed2D_def)
  obtain u where u: "round_double (233 / 100) = Fin u" "\<bar>u - 233 / 100\<bar> \<le> \<bar>233 / 100\<bar> / 2 ^ 53"
    using round_double_close [of "233 / 100"] tiny by auto
  have "\<bar>u - 233 / 100\<bar> \<le> 1 / 100000" using u(2) by (rule close_small) simp
  then have "u \<le> 2331 / 1000" by linarith
  with a xb f u(1) show ?thesis by simp
qed

subsection \<open>Ties\<close>




subsection \<open>The two delay reports\<close>

lemma platformMetricsD_snoc:
  "platformMetricsD (ps @ [p]) = (platformMetricsD ps)(id_platformD p \<mapsto> metricsOfD p)"
  by (simp add: platformMetricsD_def)

lemma platformMetricsD_distinct:
  "distinct (map id_platformD ps) \<Longrightarrow> pl \<in> set ps \<Longrightarrow>
   platformMetricsD ps (id_platformD pl) = Some (metricsOfD pl)"
proof (induction ps rule: rev_induct)
  case Nil
  then show ?case by simp
next
  case (snoc p ps)
  show ?case
  proof (cases "pl = p")
    case True
    then show ?thesis by (simp add: platformMetricsD_snoc)
  next
    case False
    with snoc.prems have m: "pl \<in> set ps" by simp
    then have "id_platformD pl \<in> id_platformD ` set ps" by (rule imageI)
    with snoc.prems have "id_platformD pl \<noteq> id_platformD p" by auto
    with snoc m show ?thesis by (simp add: platformMetricsD_snoc)
  qed
qed

lemma numberedD_distinct_ids: "numberedD ps \<Longrightarrow> distinct (map id_platformD ps)"
  by (simp add: distinct_conv_nth numberedD_def)

lemma endMetricForD_run:
  assumes "pl \<in> set (foldl (placeD w) [] xs)"
  shows "endMetricForD (foldl (placeD w) [] xs) pl = endMetricD (metricsOfD pl)"
proof -
  have "numberedD (foldl (placeD w) [] xs)"
    by (rule numberedD_foldl) (simp add: numberedD_def)
  then have "distinct (map id_platformD (foldl (placeD w) [] xs))"
    by (rule numberedD_distinct_ids)
  then show ?thesis using assms by (simp add: endMetricForD_def platformMetricsD_distinct)
qed

lemma length_concat_rowsD:
  "length (concat (map (\<lambda>pl. map (g pl) (trainsD pl)) ps)) = length (concat (map trainsD ps))"
  by (induction ps) simp_all

lemma nth_concat_rowsD:
  assumes "i < length ps" "j < length (trainsD (ps ! i))"
  shows "length (concat (map trainsD (take i ps))) + j
           < length (concat (map (\<lambda>pl. map (g pl) (trainsD pl)) ps)) \<and>
         concat (map (\<lambda>pl. map (g pl) (trainsD pl)) ps)
           ! (length (concat (map trainsD (take i ps))) + j) = g (ps ! i) (trainsD (ps ! i) ! j)"
proof -
  let ?f = "\<lambda>pl. map (g pl) (trainsD pl)"
  have "length (concat (take i (map ?f ps))) = length (concat (map trainsD (take i ps)))"
    by (simp add: take_map length_concat_rowsD)
  moreover have "i < length (map ?f ps)" "j < length (map ?f ps ! i)"
    using assms by simp_all
  ultimately show ?thesis
    using nth_concat_offset [of i "map ?f ps" j] assms by simp
qed

lemma abs_num_Fin_nonneg: "abs_num v = Fin x \<Longrightarrow> 0 \<le> x"
  by (cases v) auto

lemma max_num_0_Fin_nonneg: "max_num (Fin 0) v = Fin x \<Longrightarrow> 0 \<le> x"
  by (cases v) (auto simp: max_num_def split: if_splits)

lemma toFixed2D_nonneg:
  "0 \<le> x \<Longrightarrow> x < 10 ^ 21 \<Longrightarrow> toFixed2D (Fin x) = Hundredths \<lfloor>x * 100 + 1 / 2\<rfloor>"
  by (simp add: toFixed2D_def)

text \<open>
  Claim C8 as stated fails: on the platform with a vehicle delayed by 6 minutes and two
  vehicles on time, the endMetric is the number nearest to 7/3, and for the second vehicle,
  which is on time, \<^verbatim>\<open>delayComparisonData\<close> reports the newDelay 2.33 (the number nearest to
  it), which is not the absolute difference of the endMetric and the previous delay 0.
\<close>

theorem reach_table_delay_runtime_counterexample:
  "assignPlatformsScoreBasedD [vehicleFD, vehicleGD, vehicleHD] DEFAULT_WEIGHTS_D = [platformFGH] \<and>
   prevDelayD (delayComparisonDataD
       (assignPlatformsScoreBasedD [vehicleFD, vehicleGD, vehicleHD] DEFAULT_WEIGHTS_D) ! 1)
     = Fin 0 \<and>
   endMetricForD (assignPlatformsScoreBasedD [vehicleFD, vehicleGD, vehicleHD] DEFAULT_WEIGHTS_D)
       (assignPlatformsScoreBasedD [vehicleFD, vehicleGD, vehicleHD] DEFAULT_WEIGHTS_D ! 0)
     = round_double (7 / 3) \<and>
   newDelayD (delayComparisonDataD
       (assignPlatformsScoreBasedD [vehicleFD, vehicleGD, vehicleHD] DEFAULT_WEIGHTS_D) ! 1)
     = round_double (233 / 100) \<and>
   newDelayD (delayComparisonDataD
       (assignPlatformsScoreBasedD [vehicleFD, vehicleGD, vehicleHD] DEFAULT_WEIGHTS_D) ! 1)
     \<noteq> abs_num (sub_num
         (endMetricForD
           (assignPlatformsScoreBasedD [vehicleFD, vehicleGD, vehicleHD] DEFAULT_WEIGHTS_D)
           (assignPlatformsScoreBasedD [vehicleFD, vehicleGD, vehicleHD] DEFAULT_WEIGHTS_D ! 0))
         (prevDelayD (delayComparisonDataD
           (assignPlatformsScoreBasedD [vehicleFD, vehicleGD, vehicleHD] DEFAULT_WEIGHTS_D) ! 1)))"
proof -
  have em: "endMetricForD [platformFGH] platformFGH = endMetricD (metricsOfD platformFGH)"
    by (simp add: endMetricForD_def platformMetricsD_def)
  have d: "delayD (withEffective1D vehicleGD) = Fin 0"
    by (simp add: withEffective1D_def TrainD.extend_def vehicleGD_def)
  have row: "delayComparisonDataD [platformFGH] ! 1
      = \<lparr>trainD = id_trainD (withEffective1D vehicleGD),
         fullNameD = nameD (withEffective1D vehicleGD), prevDelayD = Fin 0,
         newDelayD = numberOf (toFixed2D (abs_num
           (sub_num (endMetricD (metricsOfD platformFGH)) (Fin 0))))\<rparr>"
    using d by (simp add: delayComparisonDataD_def Let_def endMetricForD_def
        platformMetricsD_def platformFGH_def)
  obtain x u where x: "abs_num (sub_num (endMetricD (metricsOfD platformFGH)) (Fin 0)) = Fin x"
    "2333 / 1000 \<le> x" "x \<le> 2334 / 1000" "numberOf (toFixed2D (Fin x)) = Fin u"
    "u \<le> 2331 / 1000"
    using reach_FGH by blast
  have "\<lfloor>x * 100 + 1 / 2\<rfloor> = 233" using x(2,3) by (simp add: floor_eq_iff)
  then have "toFixed2D (Fin x) = Hundredths 233" using x(2,3) by (simp add: toFixed2D_def)
  then have n: "numberOf (toFixed2D (Fin x)) = round_double (233 / 100)" by simp
  have ne: "Fin u \<noteq> Fin x" using x(2,5) by simp
  show ?thesis
    unfolding assignD_FGH row using em x(1) x(4) n ne
    by (simp add: endMetric_FGH)
qed

text \<open>
  Claim C8, amended. Let \<open>ps\<close> be the platforms built by the outer loop from some sequence of
  vehicles (the result of the engine is of this form), \<open>t\<close> the vehicle at position \<open>j\<close> of
  platform \<open>i\<close> and \<open>e\<close> the endMetric of that platform. The row of \<open>t\<close> in
  \<^verbatim>\<open>delayComparisonData\<close> has the previous delay \<open>delay t\<close> and the newDelay
  \<^verbatim>\<open>Number(Math.abs(e - delay).toFixed(2))\<close>: when the absolute difference is a finite \<open>x\<close> below
  \<open>10\<^sup>2\<^sup>1\<close>, the number nearest to \<open>n / 100\<close> for the integer \<open>n\<close> nearest to \<open>100 x\<close>, the larger
  one of two. The row of \<open>t\<close> in the Scheduling Metrics table computes
  \<^verbatim>\<open>Math.max(0, delay - e)\<close> over the same endMetric and shows it with \<^verbatim>\<open>toFixed(2)\<close>. All
  operations are those of the run-time system.
\<close>

theorem delay_reports_runtime:
  assumes "ps = foldl (placeD w) [] xs"
    and "i < length ps" and "j < length (trainsD (ps ! i))"
    and "k = length (concat (map trainsD (take i ps))) + j"
    and "t = trainsD (ps ! i) ! j"
    and "e = endMetricD (metricsOfD (ps ! i))"
  shows "k < length (delayComparisonDataD ps) \<and>
     trainD (delayComparisonDataD ps ! k) = id_trainD t \<and>
     prevDelayD (delayComparisonDataD ps ! k) = delayD t \<and>
     newDelayD (delayComparisonDataD ps ! k)
       = numberOf (toFixed2D (abs_num (sub_num e (delayD t)))) \<and>
     (\<forall>x. abs_num (sub_num e (delayD t)) = Fin x \<and> x < 10 ^ 21 \<longrightarrow>
        newDelayD (delayComparisonDataD ps ! k)
          = round_double (of_int \<lfloor>x * 100 + 1 / 2\<rfloor> / 100)) \<and>
     k < length (schedulingMetricsRowsD ps) \<and>
     rowPlatformD (schedulingMetricsRowsD ps ! k) = id_platformD (ps ! i) \<and>
     rowPrevDelayD (schedulingMetricsRowsD ps ! k) = delayD t \<and>
     rowNewDelayD (schedulingMetricsRowsD ps ! k) = max_num (Fin 0) (sub_num (delayD t) e) \<and>
     rowNewDelayCellD (schedulingMetricsRowsD ps ! k)
       = toFixed2D (max_num (Fin 0) (sub_num (delayD t) e)) \<and>
     (\<forall>x. max_num (Fin 0) (sub_num (delayD t) e) = Fin x \<and> x < 10 ^ 21 \<longrightarrow>
        rowNewDelayCellD (schedulingMetricsRowsD ps ! k) = Hundredths \<lfloor>x * 100 + 1 / 2\<rfloor>)"
proof -
  have mem: "ps ! i \<in> set ps" using assms(2) by simp
  have em: "endMetricForD ps (ps ! i) = e"
    using mem unfolding assms(1) assms(6) by (rule endMetricForD_run)
  let ?g = "\<lambda>pl t. \<lparr>trainD = id_trainD t, fullNameD = nameD t, prevDelayD = delayD t,
             newDelayD = numberOf (toFixed2D (abs_num (sub_num (endMetricForD ps pl) (delayD t))))\<rparr>"
  let ?s = "\<lambda>pl t. \<lparr>rowNameD = nameD t, rowPlatformD = id_platformD pl,
             rowPrevDelayD = delayD t,
             rowNewDelayD = max_num (Fin 0) (sub_num (delayD t) (endMetricForD ps pl)),
             rowNewDelayCellD
               = toFixed2D (max_num (Fin 0) (sub_num (delayD t) (endMetricForD ps pl)))\<rparr>"
  have dg: "delayComparisonDataD ps = concat (map (\<lambda>pl. map (?g pl) (trainsD pl)) ps)"
    by (simp add: delayComparisonDataD_def Let_def)
  have ds: "schedulingMetricsRowsD ps = concat (map (\<lambda>pl. map (?s pl) (trainsD pl)) ps)"
    by (simp add: schedulingMetricsRowsD_def Let_def)
  have g: "k < length (delayComparisonDataD ps) \<and> delayComparisonDataD ps ! k = ?g (ps ! i) t"
    unfolding dg assms(4) assms(5) using assms(2,3) by (rule nth_concat_rowsD)
  have s: "k < length (schedulingMetricsRowsD ps)
      \<and> schedulingMetricsRowsD ps ! k = ?s (ps ! i) t"
    unfolding ds assms(4) assms(5) using assms(2,3) by (rule nth_concat_rowsD)
  have gk: "delayComparisonDataD ps ! k = ?g (ps ! i) t" using g by simp
  have sk: "schedulingMetricsRowsD ps ! k = ?s (ps ! i) t" using s by simp
  have c1: "trainD (delayComparisonDataD ps ! k) = id_trainD t"
    and c2: "prevDelayD (delayComparisonDataD ps ! k) = delayD t"
    and c3: "newDelayD (delayComparisonDataD ps ! k)
       = numberOf (toFixed2D (abs_num (sub_num e (delayD t))))"
    unfolding gk em by simp_all
  have c4: "rowPlatformD (schedulingMetricsRowsD ps ! k) = id_platformD (ps ! i)"
    and c5: "rowPrevDelayD (schedulingMetricsRowsD ps ! k) = delayD t"
    and c6: "rowNewDelayD (schedulingMetricsRowsD ps ! k)
       = max_num (Fin 0) (sub_num (delayD t) e)"
    and c7: "rowNewDelayCellD (schedulingMetricsRowsD ps ! k)
       = toFixed2D (max_num (Fin 0) (sub_num (delayD t) e))"
    unfolding sk em by simp_all
  have r1: "numberOf (toFixed2D (abs_num (sub_num e (delayD t))))
      = round_double (of_int \<lfloor>x * 100 + 1 / 2\<rfloor> / 100)"
    if "abs_num (sub_num e (delayD t)) = Fin x \<and> x < 10 ^ 21" for x
    using that abs_num_Fin_nonneg [of "sub_num e (delayD t)" x]
    by (simp add: toFixed2D_nonneg)
  have r2: "toFixed2D (max_num (Fin 0) (sub_num (delayD t) e)) = Hundredths \<lfloor>x * 100 + 1 / 2\<rfloor>"
    if "max_num (Fin 0) (sub_num (delayD t) e) = Fin x \<and> x < 10 ^ 21" for x
    using that max_num_0_Fin_nonneg [of "sub_num (delayD t) e" x]
    by (simp add: toFixed2D_nonneg)
  show ?thesis
    unfolding c1 c2 c3 c4 c5 c6 c7 using g s r1 r2 by blast
qed

theorem delay_reports_runtime_witness:
  "(0::nat) < length
      (assignPlatformsScoreBasedD [vehicleFD, vehicleGD, vehicleHD] DEFAULT_WEIGHTS_D) \<and>
   (1::nat) < length (trainsD
      (assignPlatformsScoreBasedD [vehicleFD, vehicleGD, vehicleHD] DEFAULT_WEIGHTS_D ! 0)) \<and>
   prevDelayD (delayComparisonDataD
      (assignPlatformsScoreBasedD [vehicleFD, vehicleGD, vehicleHD] DEFAULT_WEIGHTS_D) ! 1)
     = Fin 0 \<and>
   newDelayD (delayComparisonDataD
      (assignPlatformsScoreBasedD [vehicleFD, vehicleGD, vehicleHD] DEFAULT_WEIGHTS_D) ! 1)
     = round_double (233 / 100) \<and>
   rowNewDelayD (schedulingMetricsRowsD
      (assignPlatformsScoreBasedD [vehicleFD, vehicleGD, vehicleHD] DEFAULT_WEIGHTS_D) ! 1)
     = Fin 0"
proof -
  let ?ps = "assignPlatformsScoreBasedD [vehicleFD, vehicleGD, vehicleHD] DEFAULT_WEIGHTS_D"
  let ?t = "withEffective1D vehicleGD"
  let ?e = "endMetricD (metricsOfD platformFGH)"
  have h2: "0 < length ?ps" by (simp add: assignD_FGH)
  have h3: "1 < length (trainsD (?ps ! 0))" by (simp add: assignD_FGH platformFGH_def)
  have h4: "1 = length (concat (map trainsD (take 0 ?ps))) + 1" by simp
  have h5: "?t = trainsD (?ps ! 0) ! 1" by (simp add: assignD_FGH platformFGH_def)
  have h6: "?e = endMetricD (metricsOfD (?ps ! 0))" by (simp add: assignD_FGH)
  have d: "delayD ?t = Fin 0"
    by (simp add: withEffective1D_def TrainD.extend_def vehicleGD_def)
  obtain x u where x: "abs_num (sub_num ?e (Fin 0)) = Fin x"
    "2333 / 1000 \<le> x" "x \<le> 2334 / 1000"
    using reach_FGH by blast
  have fl: "\<lfloor>x * 100 + 1 / 2\<rfloor> = 233" using x(2,3) by (simp add: floor_eq_iff)
  have hx: "abs_num (sub_num ?e (delayD ?t)) = Fin x \<and> x < 10 ^ 21"
    using x by (simp add: d)
  have h1: "?ps = foldl (placeD DEFAULT_WEIGHTS_D) [] (withEffectiveD [vehicleFD, vehicleGD, vehicleHD])"
    by (simp only: assignPlatformsScoreBasedD_def)
  from delay_reports_runtime [OF h1 h2 h3 h4 h5 h6]
  have p: "prevDelayD (delayComparisonDataD ?ps ! 1) = delayD ?t"
    and n: "\<forall>x. abs_num (sub_num ?e (delayD ?t)) = Fin x \<and> x < 10 ^ 21 \<longrightarrow>
        newDelayD (delayComparisonDataD ?ps ! 1) = round_double (of_int \<lfloor>x * 100 + 1 / 2\<rfloor> / 100)"
    and r: "rowNewDelayD (schedulingMetricsRowsD ?ps ! 1) = max_num (Fin 0) (sub_num (delayD ?t) ?e)"
    by blast+
  have n': "newDelayD (delayComparisonDataD ?ps ! 1) = round_double (233 / 100)"
    using n hx fl by auto
  obtain v where v: "round_double (7 / 3) = Fin v" "\<bar>v - 7 / 3\<bar> \<le> \<bar>7 / 3\<bar> / 2 ^ 53"
    using round_double_close [of "7 / 3"] tiny by auto
  have "\<bar>v - 7 / 3\<bar> \<le> 1 / 100000" using v(2) by (rule close_small) simp
  then have vb: "1 \<le> v" "v \<le> 3" by linarith+
  have "\<bar>nearest (- v) - (- v)\<bar> \<le> \<bar>- v\<bar> / 2 ^ 53"
    using vb tiny by (intro nearest_close) linarith
  then have "\<bar>nearest (- v) - (- v)\<bar> \<le> 1 / 100000"
    by (rule close_small) (use vb in simp)
  then have nn: "nearest (- v) \<le> 0" using \<open>\<bar>v - 7 / 3\<bar> \<le> 1 / 100000\<close> by linarith
  have "round_double (- v) \<noteq> NaN" by (rule round_double_not_NaN)
  moreover have "\<not> lt_num (Fin 0) (round_double (- v))"
    using vb nn by (simp add: round_double_def)
  ultimately have r': "max_num (Fin 0) (sub_num (delayD ?t) ?e) = Fin 0"
    by (simp add: d endMetric_FGH v(1) sub_num_def max_num_def)
  show ?thesis using h2 h3 p d n' r r' by simp
qed

end
